theory Spec2Isabelle
  imports
    Main
    "HOL-Library.Countable"
    "HOL-Library.Multiset"
    "HOL-Library.Char_ord"
    "HOL-Library.List_Lexorder"
    "HOL-Library.Product_Lexorder"
begin

section \<open>The directory tree as the program observes it\<close>

text \<open>
  \<^verbatim>\<open>outline_repo.py\<close> never reads file contents. Of a directory entry it observes
  its bare name, the answers of \<^verbatim>\<open>is_dir()\<close> and \<^verbatim>\<open>is_file()\<close>, the result of
  \<^verbatim>\<open>stat().st_size\<close> (a size, or \<^verbatim>\<open>OSError\<close>) and, for a directory, the result of
  listing it (the entries in the order the operating system reports them, or an
  exception). A tree node records exactly these observations:

  \<^item> \<open>File n reg st\<close>: an entry named \<open>n\<close> that is not a directory the program
    can enter. \<open>reg\<close> is the answer of \<^verbatim>\<open>Path.is_file()\<close>: \<open>Some True\<close> for a
    regular file, \<open>Some False\<close> for a FIFO, a socket or a dangling link, and
    \<open>None\<close> when the call raises, which \<^verbatim>\<open>pathlib\<close> does for every \<^verbatim>\<open>OSError\<close>
    of \<^verbatim>\<open>stat\<close> other than ENOENT, ENOTDIR, EBADF and ELOOP (a link into a
    directory that may not be searched answers EACCES). \<open>st\<close> is the answer of
    \<^verbatim>\<open>stat().st_size\<close>, with \<open>None\<close> for \<^verbatim>\<open>OSError\<close>;
  \<^item> \<open>Dir n l\<close>: a directory named \<open>n\<close>, for which \<^verbatim>\<open>is_dir()\<close> answers true
    and \<^verbatim>\<open>is_file()\<close> false; \<open>l\<close> is its listing, with \<open>None\<close> when listing it
    raises.

  An entry whose \<^verbatim>\<open>stat\<close> is refused is \<open>File n None None\<close> also when it is a
  directory: \<^verbatim>\<open>os.walk\<close> can neither list such a directory nor read the size
  of such a file, so it contributes nothing either way, and the Renderer stops
  at its \<^verbatim>\<open>is_file()\<close> before asking \<^verbatim>\<open>is_dir()\<close>.

  The tree is a snapshot (both traversals see the same answers) and holds no
  symbolic links to directories. Strings are byte strings; for names in ASCII
  they are the program's strings, with the same order.
\<close>

datatype node =
    File string "bool option" "nat option"
  | Dir string "node list option"

fun name_of :: "node \<Rightarrow> string" where
  "name_of (File n _ _) = n"
| "name_of (Dir n _) = n"

fun is_dir :: "node \<Rightarrow> bool" where
  "is_dir (File _ _ _) = False"
| "is_dir (Dir _ _) = True"

fun is_file :: "node \<Rightarrow> bool option" where
  "is_file (File _ reg _) = reg"
| "is_file (Dir _ _) = Some False"

text \<open>
  \<^verbatim>\<open>path.iterdir()\<close> and the \<^verbatim>\<open>scandir\<close> inside \<^verbatim>\<open>os.walk\<close>: the entries of a
  directory. On an entry that is not a directory both raise
  \<^verbatim>\<open>NotADirectoryError\<close>, which either caller swallows like any other listing
  failure.
\<close>

fun listing :: "node \<Rightarrow> node list option" where
  "listing (File _ _ _) = None"
| "listing (Dir _ l) = l"

text \<open>The bare names of all entries below a node, at every depth.\<close>

fun names_below :: "node \<Rightarrow> string list" where
  "names_below (File n reg st) = []"
| "names_below (Dir n None) = []"
| "names_below (Dir n (Some es)) = concat (map (\<lambda>e. name_of e # names_below e) es)"

section \<open>Path and string primitives\<close>

text \<open>\<^verbatim>\<open>sep.join(parts)\<close>.\<close>

fun join :: "string \<Rightarrow> string list \<Rightarrow> string" where
  "join sep [] = []"
| "join sep [p] = p"
| "join sep (p # q # ps) = p @ sep @ join sep (q # ps)"

text \<open>
  \<^verbatim>\<open>Path(*parts).as_posix()\<close> and \<^verbatim>\<open>str(Path(*parts))\<close> on a POSIX system, for
  parts that are names of directory entries: the parts joined by a slash, and a
  dot for the empty relative path.
\<close>

definition as_posix :: "string list \<Rightarrow> string" where
  "as_posix parts = (if parts = [] then ''.'' else join ''/'' parts)"

text \<open>\<^verbatim>\<open>s.rfind(c)\<close>, with \<open>None\<close> for -1.\<close>

fun rfind :: "char \<Rightarrow> string \<Rightarrow> nat option" where
  "rfind c [] = None"
| "rfind c (x # xs) =
     (case rfind c xs of
        Some i \<Rightarrow> Some (Suc i)
      | None \<Rightarrow> if x = c then Some 0 else None)"

text \<open>
  \<^verbatim>\<open>PurePath.suffix\<close>: with \<open>i\<close> the position of the last dot of the name, the
  name from \<open>i\<close> on when \<^verbatim>\<open>0 < i < len(name) - 1\<close>, the empty string otherwise.
\<close>

definition path_suffix :: "string \<Rightarrow> string" where
  "path_suffix nm =
     (case rfind (CHR ''.'') nm of
        None \<Rightarrow> []
      | Some i \<Rightarrow> if 0 < i \<and> Suc i < length nm then drop i nm else [])"

text \<open>
  \<^verbatim>\<open>str.lower()\<close> on a string in ASCII: the letters A to Z are mapped, every
  other character is kept. The case mapping of letters beyond ASCII is not
  modelled, so a statement that rests on \<open>lower\<close> is made for names in ASCII.
\<close>

definition lower_char :: "char \<Rightarrow> char" where
  "lower_char c =
     (if CHR ''A'' \<le> c \<and> c \<le> CHR ''Z'' then char_of (of_char c + (32 :: nat)) else c)"

definition lower :: "string \<Rightarrow> string" where
  "lower s = map lower_char s"

text \<open>
  \<^verbatim>\<open>d[k] += v\<close> on a \<^verbatim>\<open>defaultdict(int)\<close> or a \<^verbatim>\<open>Counter\<close>. A Python dict
  keeps its keys in insertion order, which \<^verbatim>\<open>items()\<close> and therefore the stable
  sorts below observe, so the dict is an association list: an existing key is
  updated in place, a new key is appended.
\<close>

fun dict_add :: "(string \<times> nat) list \<Rightarrow> string \<Rightarrow> nat \<Rightarrow> (string \<times> nat) list" where
  "dict_add [] k v = [(k, v)]"
| "dict_add ((k', v') # d) k v =
     (if k' = k then (k', v' + v) # d else (k', v') # dict_add d k v)"

section \<open>The extension table\<close>

definition EXT_LANG :: "(string \<times> string) list" where
  "EXT_LANG =
   [(''.js'', ''JavaScript''), (''.jsx'', ''JavaScript/React''), (''.ts'', ''TypeScript''),
    (''.tsx'', ''TypeScript/React''),
    (''.vue'', ''Vue''), (''.svelte'', ''Svelte''), (''.astro'', ''Astro''),
    (''.css'', ''CSS''), (''.scss'', ''SCSS''), (''.sass'', ''SASS''), (''.less'', ''LESS''),
    (''.html'', ''HTML''), (''.htm'', ''HTML''),
    (''.py'', ''Python''),
    (''.java'', ''Java''), (''.kt'', ''Kotlin''), (''.kts'', ''Kotlin''),
    (''.c'', ''C''), (''.h'', ''C Header''), (''.hpp'', ''C++ Header''), (''.hh'', ''C++ Header''),
    (''.cpp'', ''C++''), (''.cc'', ''C++''), (''.cxx'', ''C++''),
    (''.cs'', ''C#''),
    (''.go'', ''Go''),
    (''.rs'', ''Rust''),
    (''.swift'', ''Swift''),
    (''.php'', ''PHP''),
    (''.rb'', ''Ruby''),
    (''.sh'', ''Shell''), (''.bash'', ''Shell''), (''.zsh'', ''Shell''),
    (''.sql'', ''SQL''), (''.yaml'', ''YAML''), (''.yml'', ''YAML''), (''.json'', ''JSON''),
    (''.toml'', ''TOML''), (''.ini'', ''INI''), (''.env'', ''ENV''),
    (''.md'', ''Markdown''), (''.rst'', ''reStructuredText''),
    (''.gradle'', ''Gradle''), (''.groovy'', ''Groovy''),
    (''.dart'', ''Dart''),
    (''.r'', ''R''),
    (''.pl'', ''Perl''),
    (''.hs'', ''Haskell''),
    (''.scala'', ''Scala''),
    (''.lua'', ''Lua'')]"

section \<open>The Aggregator: \<^verbatim>\<open>gather_stats\<close>\<close>

text \<open>The five accumulators of \<^verbatim>\<open>gather_stats\<close>, under their names.\<close>

record acc =
  lang_counts :: "(string \<times> nat) list"
  total_files :: nat
  total_bytes :: nat
  file_sizes :: "(string \<times> nat) list"
  folder_sizes :: "(string \<times> nat) list"

definition acc0 :: acc where
  "acc0 = \<lparr>lang_counts = [], total_files = 0, total_bytes = 0, file_sizes = [],
           folder_sizes = []\<rparr>"

text \<open>
  Lines 142 to 144: \<^verbatim>\<open>for i in range(1, len(parts)+1):
  folder_sizes[Path(*parts[:i]).as_posix()] += sz\<close>.
\<close>

definition add_folders :: "string list \<Rightarrow> nat \<Rightarrow> (string \<times> nat) list \<Rightarrow> (string \<times> nat) list" where
  "add_folders parts sz fs =
     fold (\<lambda>i d. dict_add d (as_posix (take i parts)) sz) [1 ..< Suc (length parts)] fs"

text \<open>
  Lines 145 to 148: the suffix of the file name, lowercased, looked up in
  \<open>EXT_LANG\<close>; a label that is found and non-empty is counted.
\<close>

definition classify :: "string \<Rightarrow> string option" where
  "classify f = map_of EXT_LANG (lower (path_suffix f))"

definition count_lang :: "string \<Rightarrow> (string \<times> nat) list \<Rightarrow> (string \<times> nat) list" where
  "count_lang f lc =
     (case classify f of
        None \<Rightarrow> lc
      | Some lang \<Rightarrow> if lang \<noteq> [] then dict_add lc lang 1 else lc)"

text \<open>
  The body of \<^verbatim>\<open>for f in filenames\<close> (lines 132 to 148) for the file named \<open>f\<close> of
  the directory with relative parts \<open>parts\<close>, whose \<^verbatim>\<open>stat().st_size\<close> answers
  \<open>st\<close>: \<^verbatim>\<open>continue\<close> on an ignored name and on \<^verbatim>\<open>OSError\<close>.
\<close>

definition visit_file :: "string set \<Rightarrow> string list \<Rightarrow> string \<Rightarrow> nat option \<Rightarrow> acc \<Rightarrow> acc" where
  "visit_file ignores parts f st s =
     (if f \<in> ignores then s
      else case st of
        None \<Rightarrow> s
      | Some sz \<Rightarrow>
          s\<lparr>total_files := total_files s + 1,
            total_bytes := total_bytes s + sz,
            file_sizes := file_sizes s @ [(as_posix (parts @ [f]), sz)],
            folder_sizes := add_folders parts sz (folder_sizes s),
            lang_counts := count_lang f (lang_counts s)\<rparr>)"

text \<open>
  \<^verbatim>\<open>for f in filenames\<close>: \<^verbatim>\<open>os.walk\<close> puts the entries that are not directories
  into \<^verbatim>\<open>filenames\<close>, in listing order.
\<close>

fun visit_files :: "string set \<Rightarrow> string list \<Rightarrow> node list \<Rightarrow> acc \<Rightarrow> acc" where
  "visit_files ignores parts [] s = s"
| "visit_files ignores parts (File f reg st # es) s =
     visit_files ignores parts es (visit_file ignores parts f st s)"
| "visit_files ignores parts (Dir d l # es) s = visit_files ignores parts es s"

text \<open>
  \<^verbatim>\<open>for dirpath, dirnames, filenames in os.walk(root)\<close> with the loop body run at
  each directory. \<open>walk\<close> is one directory \<open>dir\<close> at relative parts \<open>parts\<close>: a
  listing failure yields nothing for it (\<^verbatim>\<open>os.walk\<close> swallows the error);
  otherwise the body runs on its files, then \<^verbatim>\<open>os.walk\<close> descends, in listing
  order, into the directories left in \<^verbatim>\<open>dirnames\<close> after line 129 pruned the
  ignored names (\<open>walk_dirs\<close>), finishing each subtree before the next sibling.
\<close>

fun walk :: "string set \<Rightarrow> string list \<Rightarrow> node \<Rightarrow> acc \<Rightarrow> acc"
  and walk_dirs :: "string set \<Rightarrow> string list \<Rightarrow> node list \<Rightarrow> acc \<Rightarrow> acc" where
  "walk ignores parts (File _ _ _) s = s"
| "walk ignores parts (Dir _ None) s = s"
| "walk ignores parts (Dir _ (Some es)) s =
     walk_dirs ignores parts es (visit_files ignores parts es s)"
| "walk_dirs ignores parts [] s = s"
| "walk_dirs ignores parts (e # es) s =
     (if is_dir e \<and> name_of e \<notin> ignores
      then walk_dirs ignores parts es (walk ignores (parts @ [name_of e]) e s)
      else walk_dirs ignores parts es s)"

text \<open>The accumulators when the loop of lines 127 to 148 ends.\<close>

definition gather_loop :: "node \<Rightarrow> string set \<Rightarrow> acc" where
  "gather_loop root ignores = walk ignores [] root acc0"

text \<open>
  \<^verbatim>\<open>sorted(xs, key=key, reverse=True)[:n]\<close>. CPython sorts with
  \<^verbatim>\<open>reverse=True\<close> by reversing the list, sorting it stably in ascending order
  and reversing the result.
\<close>

definition sorted_reverse :: "('a \<Rightarrow> 'k::linorder) \<Rightarrow> 'a list \<Rightarrow> 'a list" where
  "sorted_reverse key xs = rev (sort_key key (rev xs))"

definition top_n :: "nat \<Rightarrow> ('a \<Rightarrow> 'k::linorder) \<Rightarrow> 'a list \<Rightarrow> 'a list" where
  "top_n n key xs = take n (sorted_reverse key xs)"

text \<open>The dict \<^verbatim>\<open>gather_stats\<close> returns.\<close>

record scan_stats =
  st_total_files :: nat
  st_total_bytes :: nat
  st_lang_counts :: "(string \<times> nat) list"
  top_files :: "(string \<times> nat) list"
  top_folders :: "(string \<times> nat) list"

definition gather_stats :: "node \<Rightarrow> string set \<Rightarrow> scan_stats" where
  "gather_stats root ignores =
     (let s = gather_loop root ignores in
      \<lparr>st_total_files = total_files s,
       st_total_bytes = total_bytes s,
       st_lang_counts = lang_counts s,
       top_files = top_n 15 snd (file_sizes s),
       top_folders = top_n 10 snd (folder_sizes s)\<rparr>)"

text \<open>
  The tree of the specification's scenario: \<^verbatim>\<open>src/main.go\<close> (500 bytes),
  \<^verbatim>\<open>src/lib/util.go\<close> (300 bytes) and \<^verbatim>\<open>README.md\<close> (100 bytes).
\<close>

definition example_root :: node where
  "example_root =
     Dir ''repo''
       (Some [File ''README.md'' (Some True) (Some 100),
              Dir ''src''
                (Some [Dir ''lib'' (Some [File ''util.go'' (Some True) (Some 300)]),
                       File ''main.go'' (Some True) (Some 500)])])"

section \<open>The totals\<close>

lemma visit_file_totals:
  "total_bytes s = sum_list (map snd (file_sizes s)) \<Longrightarrow> total_files s = length (file_sizes s) \<Longrightarrow>
   total_bytes (visit_file ignores parts f st s) = sum_list (map snd (file_sizes (visit_file ignores parts f st s)))
   \<and> total_files (visit_file ignores parts f st s) = length (file_sizes (visit_file ignores parts f st s))"
  by (simp add: visit_file_def split: option.splits)

lemma visit_files_totals:
  "total_bytes s = sum_list (map snd (file_sizes s)) \<Longrightarrow> total_files s = length (file_sizes s) \<Longrightarrow>
   total_bytes (visit_files ignores parts es s) = sum_list (map snd (file_sizes (visit_files ignores parts es s)))
   \<and> total_files (visit_files ignores parts es s) = length (file_sizes (visit_files ignores parts es s))"
proof (induction ignores parts es s rule: visit_files.induct)
  case (2 ignores parts f reg st es s)
  from visit_file_totals [OF "2.prems"] show ?case
    by (simp add: "2.IH")
qed simp_all

lemma walk_totals:
  "total_bytes s = sum_list (map snd (file_sizes s)) \<Longrightarrow> total_files s = length (file_sizes s) \<Longrightarrow>
   total_bytes (walk ignores parts dir s) = sum_list (map snd (file_sizes (walk ignores parts dir s)))
   \<and> total_files (walk ignores parts dir s) = length (file_sizes (walk ignores parts dir s))"
  "total_bytes s = sum_list (map snd (file_sizes s)) \<Longrightarrow> total_files s = length (file_sizes s) \<Longrightarrow>
   total_bytes (walk_dirs ignores parts es s) = sum_list (map snd (file_sizes (walk_dirs ignores parts es s)))
   \<and> total_files (walk_dirs ignores parts es s) = length (file_sizes (walk_dirs ignores parts es s))"
proof (induction ignores parts dir s and ignores parts es s rule: walk_walk_dirs.induct)
  case (3 ignores parts uw es s)
  from visit_files_totals [OF "3.prems"] show ?case
    by (simp add: "3.IH")
next
  case (5 ignores parts e es s)
  show ?case
  proof (cases "is_dir e \<and> name_of e \<notin> ignores")
    case True
    with 5 show ?thesis by simp
  next
    case False
    with 5 show ?thesis by auto
  qed
qed simp_all

text \<open>
  C3. Whatever the root and the exclusion set, the \<^verbatim>\<open>total_bytes\<close> the
  Aggregator returns is the sum of the sizes of the file records it appended to
  \<^verbatim>\<open>file_sizes\<close>, and \<^verbatim>\<open>total_files\<close> is the number of those records.
\<close>

theorem totals_match_file_records:
  "st_total_bytes (gather_stats root ignores) = sum_list (map snd (file_sizes (gather_loop root ignores)))
   \<and> st_total_files (gather_stats root ignores) = length (file_sizes (gather_loop root ignores))"
  using walk_totals(1) [of acc0 ignores "[]" root]
  by (simp add: gather_stats_def gather_loop_def acc0_def Let_def)

section \<open>Top-N selection\<close>

lemma sorted_reverse_descending:
  "sorted_wrt (\<lambda>a b. key a \<ge> key b) (sorted_reverse key xs)"
proof -
  have "sorted (map key (sort_key key (rev xs)))"
    by (rule sorted_sort_key)
  then have "sorted_wrt (\<lambda>a b. key a \<le> key b) (sort_key key (rev xs))"
    by (simp add: sorted_map)
  then show ?thesis
    by (simp add: sorted_reverse_def sorted_wrt_rev)
qed

lemma sorted_reverse_stable:
  "filter (\<lambda>x. key x = k) (sorted_reverse key xs) = filter (\<lambda>x. key x = k) xs"
proof -
  have "filter (\<lambda>x. key x = k) (sorted_reverse key xs)
      = rev (filter (\<lambda>x. key x = k) (sort_key key (rev xs)))"
    by (simp add: sorted_reverse_def rev_filter)
  also have "\<dots> = rev (filter (\<lambda>x. key x = k) (rev xs))"
    by (simp only: sort_key_stable)
  also have "\<dots> = filter (\<lambda>x. key x = k) xs"
    by (simp add: rev_filter)
  finally show ?thesis .
qed

lemma mset_sorted_reverse:
  "mset (sorted_reverse key xs) = mset xs"
  by (simp add: sorted_reverse_def)

text \<open>
  Four files \<^verbatim>\<open>a\<close>, \<^verbatim>\<open>b\<close>, \<^verbatim>\<open>c\<close>, \<^verbatim>\<open>d\<close> of sizes 100, 50, 100 and 10, listed in
  this order.
\<close>

definition example_ties :: node where
  "example_ties =
     Dir ''t'' (Some [File ''a'' (Some True) (Some 100), File ''b'' (Some True) (Some 50),
                      File ''c'' (Some True) (Some 100), File ''d'' (Some True) (Some 10)])"

text \<open>
  C4. \<^verbatim>\<open>top_files\<close> is the first 15 and \<^verbatim>\<open>top_folders\<close> the first 10 entries of
  a rearrangement of the file records (of the folder table's items) that is
  ordered by size descending and keeps entries of equal size in the order of
  the underlying iteration. For files met in the order a, b, c, d with sizes 100,
  50, 100, 10 the records are met in that order and the top 2 are a, then c.
\<close>

theorem top_n_descending_stable:
  "top_files (gather_stats root ignores) = take 15 (sorted_reverse snd (file_sizes (gather_loop root ignores)))
   \<and> top_folders (gather_stats root ignores) = take 10 (sorted_reverse snd (folder_sizes (gather_loop root ignores)))
   \<and> mset (sorted_reverse snd (xs :: (string \<times> nat) list)) = mset xs
   \<and> sorted_wrt (\<lambda>a b. snd a \<ge> snd b) (sorted_reverse snd xs)
   \<and> (\<forall>k. filter (\<lambda>x. snd x = k) (sorted_reverse snd xs) = filter (\<lambda>x. snd x = k) xs)
   \<and> sorted_wrt (\<lambda>a b. snd a \<ge> snd b) (top_files (gather_stats root ignores))
   \<and> sorted_wrt (\<lambda>a b. snd a \<ge> snd b) (top_folders (gather_stats root ignores))
   \<and> file_sizes (gather_loop example_ties {}) = [(''a'', 100), (''b'', 50), (''c'', 100), (''d'', 10)]
   \<and> top_n 2 snd (file_sizes (gather_loop example_ties {})) = [(''a'', 100), (''c'', 100)]
   \<and> top_files (gather_stats example_ties {}) = [(''a'', 100), (''c'', 100), (''b'', 50), (''d'', 10)]"
proof -
  have fs: "file_sizes (gather_loop example_ties {}) = [(''a'', 100), (''b'', 50), (''c'', 100), (''d'', 10)]"
    by (simp add: gather_loop_def example_ties_def acc0_def visit_file_def as_posix_def)
  have desc: "sorted_wrt (\<lambda>a b. snd a \<ge> snd b) (take n (sorted_reverse snd ys))"
    for n and ys :: "(string \<times> nat) list"
    using sorted_reverse_descending [of snd ys] by (rule sorted_wrt_take)
  have two: "top_n 2 snd [(''a'', 100), (''b'', 50), (''c'', 100), (''d'', 10 :: nat)] = [(''a'', 100), (''c'', 100)]"
    by (simp add: top_n_def sorted_reverse_def)
  have all: "top_n 15 snd [(''a'', 100), (''b'', 50), (''c'', 100), (''d'', 10 :: nat)]
      = [(''a'', 100), (''c'', 100), (''b'', 50), (''d'', 10)]"
    by (simp add: top_n_def sorted_reverse_def)
  show ?thesis
    using desc two all
    by (simp add: gather_stats_def Let_def top_n_def fs mset_sorted_reverse
        sorted_reverse_descending sorted_reverse_stable)
qed

section \<open>The Classifier on dot files\<close>

lemma rfind_None: "rfind c xs = None \<longleftrightarrow> c \<notin> set xs"
  by (induction xs) (auto split: option.splits)

lemma path_suffix_dotfile:
  "CHR ''.'' \<notin> set rest \<Longrightarrow> path_suffix (CHR ''.'' # rest) = []"
proof -
  assume "CHR ''.'' \<notin> set rest"
  then have "rfind (CHR ''.'') rest = None"
    by (simp add: rfind_None)
  then show ?thesis
    by (simp add: path_suffix_def)
qed

lemma classify_empty_suffix: "map_of EXT_LANG (lower []) = None"
  by (simp add: EXT_LANG_def lower_def)

text \<open>
  C10. A file whose name starts with a dot and has no other dot has the empty
  suffix and no language label. Visiting it leaves \<^verbatim>\<open>lang_counts\<close> as it was;
  when the name is not ignored and its size is readable, \<^verbatim>\<open>total_files\<close> grows by
  one and \<^verbatim>\<open>total_bytes\<close> by the size. The key \<^verbatim>\<open>.env\<close> of \<open>EXT_LANG\<close> is found
  for a name such as \<^verbatim>\<open>prod.env\<close>, not for \<^verbatim>\<open>.env\<close>.
\<close>

theorem dotfile_has_no_language:
  assumes "f = CHR ''.'' # rest" and "CHR ''.'' \<notin> set rest"
  shows "path_suffix f = []
    \<and> classify f = None
    \<and> lang_counts (visit_file ignores parts f st s) = lang_counts s
    \<and> (f \<notin> ignores \<and> st = Some sz \<longrightarrow>
         total_files (visit_file ignores parts f st s) = total_files s + 1
         \<and> total_bytes (visit_file ignores parts f st s) = total_bytes s + sz)
    \<and> map_of EXT_LANG ''.env'' = Some ''ENV''
    \<and> classify ''.env'' = None
    \<and> classify ''prod.env'' = Some ''ENV''"
proof -
  from assms have sfx: "path_suffix f = []"
    by (simp add: path_suffix_dotfile)
  then have cl: "classify f = None"
    by (simp add: classify_def classify_empty_suffix)
  have env: "map_of EXT_LANG ''.env'' = Some ''ENV''"
    by (simp add: EXT_LANG_def)
  have "path_suffix ''prod.env'' = ''.env''"
    by (simp add: path_suffix_def)
  moreover have "lower ''.env'' = ''.env''"
    by (simp add: lower_def lower_char_def less_eq_char_def)
  ultimately have prod: "classify ''prod.env'' = Some ''ENV''"
    by (simp add: classify_def env)
  have "path_suffix ''.env'' = []"
    by (simp add: path_suffix_def)
  then have dotenv: "classify ''.env'' = None"
    by (simp add: classify_def classify_empty_suffix)
  show ?thesis
    using sfx cl env prod dotenv
    by (simp add: visit_file_def count_lang_def split: option.splits)
qed

theorem dotfile_has_no_language_witness:
  "path_suffix ''.gitignore'' = []
   \<and> classify ''.gitignore'' = None
   \<and> lang_counts (visit_file {} [''src''] ''.gitignore'' (Some 7) acc0) = []
   \<and> total_files (visit_file {} [''src''] ''.gitignore'' (Some 7) acc0) = 1
   \<and> total_bytes (visit_file {} [''src''] ''.gitignore'' (Some 7) acc0) = 7"
  using dotfile_has_no_language [of "''.gitignore''" "''gitignore''" "{}" "[''src'']" "Some 7" acc0 7]
  by (simp add: acc0_def)

section \<open>The Tree Renderer: \<^verbatim>\<open>scan_tree\<close>\<close>

text \<open>
  The four box-drawing strings of lines 111 and 114, as UTF-8: the connectors
  U+2514 U+2500 U+2500 space and U+251C U+2500 U+2500 space, and the prefix
  extensions of four spaces and of U+2502 with three spaces.
\<close>

definition connector_last :: string where
  "connector_last =
     [CHR 0xE2, CHR 0x94, CHR 0x94, CHR 0xE2, CHR 0x94, CHR 0x80, CHR 0xE2, CHR 0x94, CHR 0x80, CHR '' '']"

definition connector_mid :: string where
  "connector_mid =
     [CHR 0xE2, CHR 0x94, CHR 0x9C, CHR 0xE2, CHR 0x94, CHR 0x80, CHR 0xE2, CHR 0x94, CHR 0x80, CHR '' '']"

definition extension_last :: string where
  "extension_last = ''    ''"

definition extension_mid :: string where
  "extension_mid = [CHR 0xE2, CHR 0x94, CHR 0x82, CHR '' '', CHR '' '', CHR '' '']"

text \<open>
  The sort key of line 105: \<^verbatim>\<open>(p.is_file(), p.name.lower())\<close>, which raises
  when \<^verbatim>\<open>is_file()\<close> does.
\<close>

definition entry_key :: "node \<Rightarrow> (bool \<times> string) option" where
  "entry_key p = map_option (\<lambda>reg. (reg, lower (name_of p))) (is_file p)"

text \<open>
  \<^verbatim>\<open>sorted([p for p in path.iterdir()], key=...)\<close> on a listing: \<^verbatim>\<open>sorted\<close>
  first computes the key of every entry, so it raises when one key does (the
  answer \<open>None\<close>); otherwise it sorts the entries by their keys, a stable
  ascending sort (\<open>sort_key\<close>).
\<close>

definition sorted_entries :: "node list \<Rightarrow> node list option" where
  "sorted_entries es =
     map_option (\<lambda>ks. map snd (sort_key fst (zip ks es))) (those (map entry_key es))"

text \<open>
  Where every \<^verbatim>\<open>is_file()\<close> of a listing answers, the sort is the sort by the
  total key \<open>key_of\<close>, and \<open>children\<close> are the entries the loop of line 109 runs
  over: the sorted listing without the ignored names (line 108).
\<close>

definition answers :: "node \<Rightarrow> bool" where
  "answers e = (is_file e \<noteq> None)"

definition key_of :: "node \<Rightarrow> bool \<times> string" where
  "key_of e = (is_file e = Some True, lower (name_of e))"

definition children :: "string set \<Rightarrow> node list \<Rightarrow> node list" where
  "children ignores es = filter (\<lambda>e. name_of e \<notin> ignores) (sort_key key_of es)"

lemma size_list_insort_key: "size_list f (insort_key k x xs) = Suc (f x + size_list f xs)"
  by (induction xs) simp_all

lemma size_list_sort_key: "size_list f (sort_key k es) = size_list f es"
  by (induction es) (simp_all add: size_list_insort_key)

lemma size_list_filter: "size_list f (filter P es) \<le> size_list f es"
  by (induction es) simp_all

lemma size_list_children: "size_list f (children ignores es) \<le> size_list f es"
  using size_list_filter [of f _ "sort_key key_of es"]
  by (simp add: children_def size_list_sort_key)

lemma those_map_entry_key:
  "those (map entry_key es) = (if list_all answers es then Some (map key_of es) else None)"
proof (induction es)
  case Nil
  show ?case by simp
next
  case (Cons e es)
  show ?case
  proof (cases "is_file e")
    case None
    then show ?thesis by (simp add: entry_key_def answers_def)
  next
    case (Some reg)
    with Cons show ?thesis by (simp add: entry_key_def answers_def key_of_def)
  qed
qed

lemma insort_key_decorated:
  "insort_key fst (k x, x) (map (\<lambda>e. (k e, e)) xs) = map (\<lambda>e. (k e, e)) (insort_key k x xs)"
  by (induction xs) simp_all

lemma sort_key_decorated:
  "sort_key fst (map (\<lambda>e. (k e, e)) xs) = map (\<lambda>e. (k e, e)) (sort_key k xs)"
  by (induction xs) (simp_all add: insort_key_decorated)

lemma sorted_entries_eq:
  "sorted_entries es = (if list_all answers es then Some (sort_key key_of es) else None)"
proof -
  have "zip (map key_of es) es = map (\<lambda>e. (key_of e, e)) es"
    by (induction es) simp_all
  then show ?thesis
    by (simp add: sorted_entries_def those_map_entry_key sort_key_decorated comp_def)
qed

text \<open>
  The nested function \<^verbatim>\<open>helper\<close>, returning the lines it appends to \<^verbatim>\<open>lines\<close>,
  in order. \<open>helper_loop\<close> is the \<^verbatim>\<open>for i, entry in enumerate(entries)\<close> of
  lines 109 to 115 on the entries still to come: \<^verbatim>\<open>i == len(entries) - 1\<close> holds
  exactly when no entry follows. The \<^verbatim>\<open>except\<close> of line 106 returns without a
  line when the listing or a sort key raises.
\<close>

function helper :: "int \<Rightarrow> string set \<Rightarrow> node \<Rightarrow> string \<Rightarrow> int \<Rightarrow> string list"
  and helper_loop :: "int \<Rightarrow> string set \<Rightarrow> node list \<Rightarrow> string \<Rightarrow> int \<Rightarrow> string list" where
  "helper depth ignores path prefix current_depth =
     (if current_depth > depth then []
      else case listing path of
        None \<Rightarrow> []
      | Some es \<Rightarrow>
          (case sorted_entries es of
             None \<Rightarrow> []
           | Some entries \<Rightarrow>
               helper_loop depth ignores (filter (\<lambda>e. name_of e \<notin> ignores) entries)
                 prefix current_depth))"
| "helper_loop depth ignores [] prefix current_depth = []"
| "helper_loop depth ignores (entry # rest) prefix current_depth =
     (let is_last = (rest = []);
          connector = (if is_last then connector_last else connector_mid);
          extension = (if is_last then extension_last else extension_mid)
      in (prefix @ connector @ name_of entry @ (if is_dir entry then ''/'' else []))
         # (if is_dir entry then helper depth ignores entry (prefix @ extension) (current_depth + 1) else [])
         @ helper_loop depth ignores rest prefix current_depth)"
  by pat_completeness auto
termination
proof (relation "measure (\<lambda>x. case x of Inl (_, _, p, _, _) \<Rightarrow> size p
                                        | Inr (_, _, es, _, _) \<Rightarrow> size_list size es)", goal_cases)
  case 1
  show ?case by simp
next
  case (2 depth ignores path prefix current_depth es entries)
  then obtain n where "path = Dir n (Some es)"
    by (cases path) simp_all
  moreover from 2 have "entries = sort_key key_of es"
    by (simp add: sorted_entries_eq split: if_splits)
  ultimately show ?case
    using size_list_children [of size ignores es] by (simp add: children_def)
next
  case 3
  then show ?case by simp
next
  case 4
  then show ?case by simp
qed

declare helper.simps [simp del]

definition scan_tree :: "node \<Rightarrow> int \<Rightarrow> string set \<Rightarrow> string list" where
  "scan_tree root depth ignores = (name_of root @ ''/'') # helper depth ignores root [] 1"

text \<open>
  The nesting level a rendered line shows: the number of prefix extensions
  before its connector, plus one. A child of the root is at level 1. A line
  that does not start with extensions followed by a connector has no level.
\<close>

definition starts_with :: "string \<Rightarrow> string \<Rightarrow> bool" where
  "starts_with p s = (take (length p) s = p)"

function line_level :: "string \<Rightarrow> nat option" where
  "line_level s =
     (if starts_with connector_last s \<or> starts_with connector_mid s then Some 1
      else if starts_with extension_last s
        then map_option Suc (line_level (drop (length extension_last) s))
      else if starts_with extension_mid s
        then map_option Suc (line_level (drop (length extension_mid) s))
      else None)"
  by pat_completeness auto
termination
proof (relation "measure length", goal_cases)
  case 1
  show ?case by simp
next
  case (2 s)
  then have "s \<noteq> []"
    by (auto simp: starts_with_def extension_last_def)
  then show ?case
    by (simp add: extension_last_def)
next
  case (3 s)
  then have "s \<noteq> []"
    by (auto simp: starts_with_def extension_mid_def)
  then show ?case
    by (simp add: extension_mid_def)
qed

declare line_level.simps [simp del]

text \<open>The line of line 112 for one child, and the lines of all children of a directory.\<close>

definition child_line :: "string \<Rightarrow> bool \<Rightarrow> node \<Rightarrow> string" where
  "child_line prefix is_last e =
     prefix @ (if is_last then connector_last else connector_mid) @ name_of e
       @ (if is_dir e then ''/'' else [])"

fun child_lines :: "string \<Rightarrow> node list \<Rightarrow> string list" where
  "child_lines prefix [] = []"
| "child_lines prefix (e # rest) = child_line prefix (rest = []) e # child_lines prefix rest"

lemma helper_unfold:
  "helper depth ignores path prefix cd =
     (if cd > depth then []
      else case listing path of
        None \<Rightarrow> []
      | Some es \<Rightarrow>
          if list_all answers es then helper_loop depth ignores (children ignores es) prefix cd
          else [])"
  by (subst helper.simps) (simp add: sorted_entries_eq children_def split: option.splits)

lemma sorted_entries_answers:
  "list_all answers es \<Longrightarrow> sorted_entries es = Some (sort_key key_of es)"
  by (simp add: sorted_entries_eq)

lemma insort_key_map_same:
  assumes "\<And>x. k (g x) = k x"
  shows "insort_key k (g x) (map g xs) = map g (insort_key k x xs)"
  by (induction xs) (simp_all add: assms)

lemma sort_key_map_same:
  assumes "\<And>x. k (g x) = k x"
  shows "sort_key k (map g xs) = map g (sort_key k xs)"
  by (induction xs) (simp_all add: insort_key_map_same [of k g, OF assms])

section \<open>The depth bound\<close>

lemma line_level_connector:
  "c = connector_last \<or> c = connector_mid \<Longrightarrow> line_level (c @ rest) = Some 1"
  by (subst line_level.simps) (auto simp: starts_with_def)

lemma line_level_extension:
  assumes "u = extension_last \<or> u = extension_mid"
  shows "line_level (u @ rest) = map_option Suc (line_level rest)"
  using assms
  by (subst line_level.simps)
     (auto simp: starts_with_def extension_last_def extension_mid_def connector_last_def connector_mid_def)

lemma line_level_prefix:
  assumes "set us \<subseteq> {extension_last, extension_mid}"
    and "c = connector_last \<or> c = connector_mid"
  shows "line_level (concat us @ c @ rest) = Some (Suc (length us))"
  using assms
  by (induction us) (auto simp: line_level_connector line_level_extension)

text \<open>
  Under a prefix of \<open>length us\<close> extensions, every line \<^verbatim>\<open>helper\<close> appends at
  \<^verbatim>\<open>current_depth\<close> \<open>cd\<close> shows a level \<open>k\<close> beyond the prefix, and the depth
  \<open>cd + (k - 1 - length us)\<close> at which its directory was listed is at most
  \<^verbatim>\<open>depth\<close>.
\<close>

lemma helper_levels:
  "prefix = concat us \<Longrightarrow> set us \<subseteq> {extension_last, extension_mid} \<Longrightarrow>
     \<forall>line \<in> set (helper depth ignores path prefix cd).
        \<exists>k. line_level line = Some k \<and> length us < k \<and> int k + cd \<le> depth + 1 + int (length us)"
  "prefix = concat us \<Longrightarrow> set us \<subseteq> {extension_last, extension_mid} \<Longrightarrow> cd \<le> depth \<Longrightarrow>
     \<forall>line \<in> set (helper_loop depth ignores es prefix cd).
        \<exists>k. line_level line = Some k \<and> length us < k \<and> int k + cd \<le> depth + 1 + int (length us)"
proof (induction depth ignores path prefix cd and depth ignores es prefix cd
       arbitrary: us and us rule: helper_helper_loop.induct)
  case (1 depth ignores path prefix current_depth)
  show ?case
  proof (cases "current_depth > depth")
    case True
    then show ?thesis
      by (simp add: helper_unfold [of depth ignores path prefix current_depth])
  next
    case False
    show ?thesis
    proof (cases "listing path")
      case None
      with False show ?thesis
        by (simp add: helper_unfold [of depth ignores path prefix current_depth])
    next
      case (Some es)
      from False have le: "current_depth \<le> depth" by simp
      show ?thesis
      proof (cases "list_all answers es")
        case True
        from "1.IH" [OF False Some sorted_entries_answers [OF True] "1.prems" le] False Some True
        show ?thesis
          by (simp add: helper_unfold [of depth ignores path prefix current_depth] children_def)
      next
        case False
        with Some show ?thesis
          by (simp add: helper_unfold [of depth ignores path prefix current_depth])
      qed
    qed
  qed
next
  case (2 depth ignores prefix current_depth)
  then show ?case by simp
next
  case (3 depth ignores entry rest prefix current_depth)
  define u where "u = (if rest = [] then extension_last else extension_mid)"
  define c where "c = (if rest = [] then connector_last else connector_mid)"
  have first: "line_level (prefix @ c @ name_of entry @ sfx) = Some (Suc (length us))" for sfx
    using line_level_prefix [OF "3.prems"(2), of c] "3.prems"(1) by (simp add: c_def)
  have us': "set (us @ [u]) \<subseteq> {extension_last, extension_mid}"
    using "3.prems"(2) by (simp add: u_def)
  have pre': "prefix @ u = concat (us @ [u])"
    using "3.prems"(1) by simp
  have sub: "\<forall>line \<in> set (helper depth ignores entry (prefix @ u) (current_depth + 1)).
        \<exists>k. line_level line = Some k \<and> length us < k \<and> int k + current_depth \<le> depth + 1 + int (length us)"
    if "is_dir entry"
  proof -
    have "\<forall>line \<in> set (helper depth ignores entry (prefix @ u) (current_depth + 1)).
        \<exists>k. line_level line = Some k \<and> length (us @ [u]) < k
          \<and> int k + (current_depth + 1) \<le> depth + 1 + int (length (us @ [u]))"
      using "3.IH"(1) [OF refl refl refl that _ us', unfolded u_def [symmetric]] pre'
      by (simp add: u_def)
    then show ?thesis by fastforce
  qed
  have rest: "\<forall>line \<in> set (helper_loop depth ignores rest prefix current_depth).
        \<exists>k. line_level line = Some k \<and> length us < k \<and> int k + current_depth \<le> depth + 1 + int (length us)"
    using "3.IH"(2) [OF refl refl refl "3.prems"] .
  show ?case
    using first sub rest "3.prems"(3)
    by (auto simp: Let_def c_def u_def)
qed

lemma scan_tree_example_depth_1:
  "scan_tree example_root 1 {} = [''repo/'', connector_mid @ ''src/'', connector_last @ ''README.md'']"
  by code_simp

lemma scan_tree_example_levels_1:
  "map line_level (tl (scan_tree example_root 1 {})) = [Some 1, Some 1]"
  by code_simp




section \<open>The order of the rendered children\<close>

text \<open>
  A name in ASCII. For such names \<open>lower\<close> is \<^verbatim>\<open>str.lower()\<close> and the order of
  byte strings is the order Python compares strings by.
\<close>

definition ascii :: "string \<Rightarrow> bool" where
  "ascii s = list_all (\<lambda>c. c \<le> CHR 0x7F) s"

text \<open>
  A directory listed in the order \<^verbatim>\<open>b.txt\<close>, \<^verbatim>\<open>Zeta/\<close>, \<^verbatim>\<open>pipe\<close> (a FIFO),
  \<^verbatim>\<open>A.txt\<close>, \<^verbatim>\<open>alpha/\<close>, \<^verbatim>\<open>.git\<close>, where \<^verbatim>\<open>alpha\<close> cannot be listed.
\<close>

definition example_mixed :: node where
  "example_mixed =
     Dir ''m'' (Some [File ''b.txt'' (Some True) (Some 1), Dir ''Zeta'' (Some []),
                      File ''pipe'' (Some False) (Some 0),
                      File ''A.txt'' (Some True) (Some 2), Dir ''alpha'' None,
                      File ''.git'' (Some True) (Some 3)])"

text \<open>
  A directory holding the directory \<^verbatim>\<open>b\<close> and the FIFO \<^verbatim>\<open>a\<close>.
\<close>

definition example_fifo :: node where
  "example_fifo = Dir ''f'' (Some [Dir ''b'' (Some []), File ''a'' (Some False) (Some 0)])"

lemma helper_loop_own_level:
  assumes "prefix = concat us" and "set us \<subseteq> {extension_last, extension_mid}"
  shows "filter (\<lambda>l. line_level l = Some (Suc (length us))) (helper_loop depth ignores es prefix cd)
       = child_lines prefix es"
proof (induction es)
  case Nil
  show ?case by simp
next
  case (Cons e rest)
  define u where "u = (if rest = [] then extension_last else extension_mid)"
  have first: "line_level (child_line prefix (rest = []) e) = Some (Suc (length us))"
    using line_level_prefix [OF assms(2), of "if rest = [] then connector_last else connector_mid"] assms(1)
    by (simp add: child_line_def)
  have "set (us @ [u]) \<subseteq> {extension_last, extension_mid}" "prefix @ u = concat (us @ [u])"
    using assms by (simp_all add: u_def)
  from helper_levels(1) [OF this(2) this(1), of depth ignores e "cd + 1"]
  have "\<forall>line \<in> set (helper depth ignores e (prefix @ u) (cd + 1)). line_level line \<noteq> Some (Suc (length us))"
    by fastforce
  then have sub: "filter (\<lambda>l. line_level l = Some (Suc (length us))) (helper depth ignores e (prefix @ u) (cd + 1)) = []"
    by (simp add: filter_empty_conv)
  show ?case
    using first sub Cons.IH
    by (simp add: Let_def u_def child_line_def)
qed

lemma sorted_snd_of_const_fst:
  "sorted (map f xs) \<Longrightarrow> \<forall>x \<in> set xs. fst (f x) = b \<Longrightarrow> sorted (map (\<lambda>x. snd (f x)) xs)"
  for f :: "'a \<Rightarrow> bool \<times> string"
proof (induction xs)
  case Nil
  show ?case by simp
next
  case (Cons x xs)
  then show ?case
    by (auto simp: less_eq_prod_def)
qed

lemma sorted_children: "sorted (map key_of (children ignores es))"
  unfolding children_def by (rule sorted_filter) (rule sorted_sort_key)

lemma regular_files_last:
  assumes "sorted (map key_of xs)" and "i < j" and "j < length xs"
    and "is_file (xs ! i) = Some True"
  shows "is_file (xs ! j) = Some True"
proof -
  from assms(1) have "sorted_wrt (\<lambda>a b. key_of a \<le> key_of b) xs"
    by (simp add: sorted_map)
  with assms(2,3) have "key_of (xs ! i) \<le> key_of (xs ! j)"
    by (simp add: sorted_wrt_iff_nth_less)
  with assms(4) show ?thesis
    by (auto simp: key_of_def less_eq_prod_def)
qed

lemma sorted_group:
  assumes "sorted (map key_of xs)" and "\<forall>e \<in> set (filter P xs). fst (key_of e) = b"
  shows "sorted (map (\<lambda>e. lower (name_of e)) (filter P xs))"
proof -
  have "sorted (map key_of (filter P xs))"
    using assms(1) by (rule sorted_filter)
  from sorted_snd_of_const_fst [OF this assms(2)] show ?thesis
    by (simp add: key_of_def)
qed

lemma children_stable:
  "filter (\<lambda>e. key_of e = k) (children ignores es)
     = filter (\<lambda>e. key_of e = k) (filter (\<lambda>e. name_of e \<notin> ignores) es)"
proof -
  have "filter (\<lambda>e. key_of e = k) (children ignores es)
      = filter (\<lambda>e. name_of e \<notin> ignores) (filter (\<lambda>e. key_of e = k) (sort_key key_of es))"
    by (simp add: children_def conj_commute)
  also have "\<dots> = filter (\<lambda>e. name_of e \<notin> ignores) (filter (\<lambda>e. key_of e = k) es)"
    by (simp only: sort_key_stable)
  also have "\<dots> = filter (\<lambda>e. key_of e = k) (filter (\<lambda>e. name_of e \<notin> ignores) es)"
    by (simp add: conj_commute)
  finally show ?thesis .
qed

lemma children_example_mixed:
  "children {''.git''} (the (listing example_mixed))
     = [Dir ''alpha'' None, File ''pipe'' (Some False) (Some 0), Dir ''Zeta'' (Some []),
        File ''A.txt'' (Some True) (Some 2), File ''b.txt'' (Some True) (Some 1)]"
  by code_simp


lemma example_mixed_hypotheses:
  "list_all answers (the (listing example_mixed))
   \<and> list_all (\<lambda>e. ascii (name_of e)) (the (listing example_mixed))"
  by code_simp



section \<open>Unreadable items\<close>

text \<open>
  The tree without the files whose size cannot be read, and with every
  directory that cannot be listed replaced by an empty one; and the tree where
  only the latter is done (the Renderer never asks for a size).
\<close>

fun size_unreadable :: "node \<Rightarrow> bool" where
  "size_unreadable (File n reg None) = True"
| "size_unreadable _ = False"

fun without_unreadable :: "node \<Rightarrow> node" where
  "without_unreadable (File n reg st) = File n reg st"
| "without_unreadable (Dir n None) = Dir n (Some [])"
| "without_unreadable (Dir n (Some es)) =
     Dir n (Some (map without_unreadable (filter (\<lambda>e. \<not> size_unreadable e) es)))"

fun unlistable_as_empty :: "node \<Rightarrow> node" where
  "unlistable_as_empty (File n reg st) = File n reg st"
| "unlistable_as_empty (Dir n None) = Dir n (Some [])"
| "unlistable_as_empty (Dir n (Some es)) = Dir n (Some (map unlistable_as_empty es))"

text \<open>
  A directory holding a file whose size cannot be read, a directory that cannot
  be listed, a readable file and a readable directory, in this order.
\<close>

definition example_unreadable :: node where
  "example_unreadable =
     Dir ''u'' (Some [File ''gone.py'' (Some False) None, Dir ''locked'' None,
                      File ''ok.py'' (Some True) (Some 40),
                      Dir ''sub'' (Some [File ''x.go'' (Some True) (Some 2)])])"

lemma without_unreadable_observations [simp]:
  "name_of (without_unreadable e) = name_of e"
  "is_dir (without_unreadable e) = is_dir e"
  by (induction e rule: without_unreadable.induct) simp_all

lemma unlistable_as_empty_observations [simp]:
  "name_of (unlistable_as_empty e) = name_of e"
  "is_dir (unlistable_as_empty e) = is_dir e"
  "is_file (unlistable_as_empty e) = is_file e"
  by (induction e rule: unlistable_as_empty.induct) simp_all

lemma visit_files_without_unreadable:
  "visit_files ignores parts es s
     = visit_files ignores parts (map without_unreadable (filter (\<lambda>e. \<not> size_unreadable e) es)) s"
proof (induction ignores parts es s rule: visit_files.induct)
  case (2 ignores parts f reg st es s)
  then show ?case
    by (cases st) (simp_all add: visit_file_def)
next
  case (3 ignores parts d l es s)
  then show ?case
    by (cases l) simp_all
qed simp

lemma walk_without_unreadable:
  "walk ignores parts dir s = walk ignores parts (without_unreadable dir) s"
  "walk_dirs ignores parts es s
     = walk_dirs ignores parts (map without_unreadable (filter (\<lambda>e. \<not> size_unreadable e) es)) s"
proof (induction ignores parts dir s and ignores parts es s rule: walk_walk_dirs.induct)
  case (1 ignores parts uu uv uw s)
  show ?case by simp
next
  case (2 ignores parts ux s)
  show ?case by simp
next
  case (3 ignores parts uy es s)
  have "walk ignores parts (Dir uy (Some es)) s
      = walk_dirs ignores parts (map without_unreadable (filter (\<lambda>e. \<not> size_unreadable e) es))
          (visit_files ignores parts es s)"
    using "3.IH" by simp
  then show ?case
    using visit_files_without_unreadable [of ignores parts es s] by simp
next
  case (4 ignores parts s)
  show ?case by simp
next
  case (5 ignores parts e es s)
  show ?case
  proof (cases "is_dir e \<and> name_of e \<notin> ignores")
    case True
    then have "\<not> size_unreadable e" by (cases e) simp_all
    with True "5.IH"(1,2) show ?thesis by simp
  next
    case False
    with "5.IH"(3) show ?thesis
      by (cases "size_unreadable e") auto
  qed
qed

lemma key_of_unlistable_as_empty [simp]:
  "key_of (unlistable_as_empty e) = key_of e"
  "answers (unlistable_as_empty e) = answers e"
  by (simp_all add: key_of_def answers_def)

lemma children_unlistable_as_empty:
  "children ignores (map unlistable_as_empty es) = map unlistable_as_empty (children ignores es)"
proof -
  have "sort_key key_of (map unlistable_as_empty es) = map unlistable_as_empty (sort_key key_of es)"
    by (rule sort_key_map_same) simp
  then show ?thesis
    by (simp add: children_def filter_map comp_def)
qed

lemma helper_unlistable_as_empty:
  "helper depth ignores path prefix cd = helper depth ignores (unlistable_as_empty path) prefix cd"
  "helper_loop depth ignores es prefix cd = helper_loop depth ignores (map unlistable_as_empty es) prefix cd"
proof (induction depth ignores path prefix cd and depth ignores es prefix cd
       rule: helper_helper_loop.induct)
  case (1 depth ignores path prefix current_depth)
  show ?case
  proof (cases "current_depth > depth")
    case True
    then show ?thesis
      by (simp only: helper_unfold [of depth _ _ prefix current_depth] if_True)
  next
    case False
    show ?thesis
    proof (cases path)
      case (File n reg st)
      then show ?thesis by simp
    next
      case (Dir n l)
      show ?thesis
      proof (cases l)
        case None
        with Dir False show ?thesis
          by (simp add: helper_unfold [of depth _ _ prefix current_depth] children_def)
      next
        case (Some es)
        with Dir have ls: "listing path = Some es" by simp
        have same: "list_all answers (map unlistable_as_empty es) = list_all answers es"
          by (simp add: list_all_iff)
        show ?thesis
        proof (cases "list_all answers es")
          case True
          from "1.IH" [OF False ls sorted_entries_answers [OF True]] Some Dir False True same
          show ?thesis
            by (simp add: helper_unfold [of depth _ _ prefix current_depth]
                children_unlistable_as_empty children_def [symmetric])
        next
          case no: False
          with Some Dir False same show ?thesis
            by (simp add: helper_unfold [of depth _ _ prefix current_depth])
        qed
      qed
    qed
  qed
next
  case (2 depth ignores prefix current_depth)
  show ?case by simp
next
  case (3 depth ignores entry rest prefix current_depth)
  note ih2 = "3.IH"(2) [OF refl refl refl]
  show ?case
  proof (cases "is_dir entry")
    case True
    from "3.IH"(1) [OF refl refl refl True] ih2 True show ?thesis
      by (simp add: Let_def)
  next
    case False
    with ih2 show ?thesis
      by (simp add: Let_def)
  qed
qed

lemma gather_stats_example_unreadable:
  "gather_stats example_unreadable {}
     = \<lparr>st_total_files = 2, st_total_bytes = 42,
        st_lang_counts = [(''Python'', 1), (''Go'', 1)],
        top_files = [(''ok.py'', 40), (''sub/x.go'', 2)],
        top_folders = [(''sub'', 2)]\<rparr>"
  by code_simp

lemma scan_tree_example_unreadable:
  "scan_tree example_unreadable 2 {}
     = [''u/'', connector_mid @ ''gone.py'', connector_mid @ ''locked/'', connector_mid @ ''sub/'',
        extension_mid @ connector_last @ ''x.go'', connector_last @ ''ok.py'']"
  by code_simp





section \<open>The folder table\<close>

text \<open>
  \<^verbatim>\<open>d.get(k, 0)\<close>: the value a table holds for a key, 0 when the key is absent.
\<close>

definition dict_get :: "(string \<times> nat) list \<Rightarrow> string \<Rightarrow> nat" where
  "dict_get d k = (case map_of d k of None \<Rightarrow> 0 | Some v \<Rightarrow> v)"

lemma map_of_dict_add:
  "map_of (dict_add d k v) k' =
     (if k' = k then Some (dict_get d k + v) else map_of d k')"
  by (induction d k v rule: dict_add.induct) (auto simp: dict_get_def)

lemma keys_dict_add: "fst ` set (dict_add d k v) = insert k (fst ` set d)"
  by (induction d k v rule: dict_add.induct) auto

lemma distinct_dict_add:
  "distinct (map fst d) \<Longrightarrow> distinct (map fst (dict_add d k v))"
proof (induction d k v rule: dict_add.induct)
  case (2 k' v' d k v)
  then show ?case
    using keys_dict_add [of d k v] by (auto simp: image_iff)
qed simp

lemma dict_get_dict_add:
  "dict_get (dict_add d k v) k' = dict_get d k' + (if k' = k then v else 0)"
  by (simp add: dict_get_def map_of_dict_add)

text \<open>
  The keys the loop of lines 143 and 144 touches for a file in the directory with
  relative parts \<open>parts\<close>: one per non-empty prefix of the parts.
\<close>

definition dir_keys :: "string list \<Rightarrow> string list" where
  "dir_keys parts = map (\<lambda>i. as_posix (take i parts)) [1 ..< Suc (length parts)]"

lemma length_join:
  "length (join sep ps) = sum_list (map length ps) + (length ps - 1) * length sep"
  by (induction sep ps rule: join.induct) simp_all

lemma sum_list_take_mono:
  "i \<le> j \<Longrightarrow> sum_list (map f (take i ps)) \<le> sum_list (map f (take j ps))" for f :: "'a \<Rightarrow> nat"
proof (induction ps arbitrary: i j)
  case Nil
  show ?case by simp
next
  case (Cons p ps)
  then show ?case
    by (cases i; cases j) simp_all
qed

lemma length_as_posix_take:
  assumes "1 \<le> i" and "i \<le> length ps"
  shows "length (as_posix (take i ps)) = sum_list (map length (take i ps)) + (i - 1)"
proof -
  from assms have "take i ps \<noteq> []" by auto
  moreover from assms have "length (take i ps) = i" by simp
  ultimately show ?thesis
    by (simp add: as_posix_def length_join del: length_take)
qed

lemma length_as_posix_take_less:
  assumes "1 \<le> i" and "i < j" and "j \<le> length ps"
  shows "length (as_posix (take i ps)) < length (as_posix (take j ps))"
proof -
  from assms(2) have "sum_list (map length (take i ps)) \<le> sum_list (map length (take j ps))"
    by (intro sum_list_take_mono) simp
  moreover have "length (as_posix (take i ps)) = sum_list (map length (take i ps)) + (i - 1)"
    using assms by (intro length_as_posix_take) simp_all
  moreover have "length (as_posix (take j ps)) = sum_list (map length (take j ps)) + (j - 1)"
    using assms by (intro length_as_posix_take) simp_all
  ultimately show ?thesis
    using assms by linarith
qed

lemma distinct_dir_keys: "distinct (dir_keys parts)"
proof -
  have "inj_on (\<lambda>i. as_posix (take i parts)) (set [1 ..< Suc (length parts)])"
  proof (rule inj_onI)
    fix i j
    assume "i \<in> set [1 ..< Suc (length parts)]" and "j \<in> set [1 ..< Suc (length parts)]"
      and eq: "as_posix (take i parts) = as_posix (take j parts)"
    then have i: "1 \<le> i" "i \<le> length parts" and j: "1 \<le> j" "j \<le> length parts"
      by auto
    show "i = j"
    proof (rule ccontr)
      assume "i \<noteq> j"
      then consider "i < j" | "j < i" by linarith
      then show False
      proof cases
        case 1
        from length_as_posix_take_less [OF i(1) 1 j(2)] eq show False by simp
      next
        case 2
        from length_as_posix_take_less [OF j(1) 2 i(2)] eq show False by simp
      qed
    qed
  qed
  then show ?thesis
    by (simp add: dir_keys_def distinct_map)
qed

lemma fold_dict_add_get:
  "distinct ks \<Longrightarrow>
   dict_get (fold (\<lambda>k d. dict_add d k sz) ks d) F = dict_get d F + (if F \<in> set ks then sz else 0)"
  by (induction ks arbitrary: d) (auto simp: dict_get_dict_add)

lemma fold_dict_add_keys:
  "fst ` set (fold (\<lambda>k d. dict_add d k sz) ks d) = set ks \<union> fst ` set d"
  by (induction ks arbitrary: d) (auto simp: keys_dict_add)

lemma fold_dict_add_distinct:
  "distinct (map fst d) \<Longrightarrow> distinct (map fst (fold (\<lambda>k d. dict_add d k sz) ks d))"
  by (induction ks arbitrary: d) (simp_all add: distinct_dict_add)

lemma add_folders_fold:
  "add_folders parts sz d = fold (\<lambda>k d. dict_add d k sz) (dir_keys parts) d"
  by (simp add: add_folders_def dir_keys_def fold_map comp_def)


text \<open>
  The brute-force recomputation the folder table is compared with. \<open>entry_files\<close>
  lists every entry that is not a directory at or below a node, with the names
  from the node down to the entry and the answer of its \<^verbatim>\<open>stat\<close>; nothing is
  known below a directory that cannot be listed. \<open>files_below\<close> are the
  entries below the root, by their paths relative to the root.
\<close>

fun entry_files :: "node \<Rightarrow> (string list \<times> nat option) list" where
  "entry_files (File n reg st) = [([n], st)]"
| "entry_files (Dir n None) = []"
| "entry_files (Dir n (Some es)) = map (\<lambda>(p, st). (n # p, st)) (concat (map entry_files es))"

definition files_below :: "node \<Rightarrow> (string list \<times> nat option) list" where
  "files_below root = (case listing root of None \<Rightarrow> [] | Some es \<Rightarrow> concat (map entry_files es))"

text \<open>
  The folders a relative path lies in, as table keys: its non-empty proper
  prefixes, from the top-level folder down to the immediate parent. The empty
  prefix, which is the root, is not among them.
\<close>

definition ancestors :: "string list \<Rightarrow> string list" where
  "ancestors p = map (\<lambda>i. as_posix (take i p)) [1 ..< length p]"

text \<open>
  A file counts when its size can be read and no name on its path, its own
  included, is in the exclusion set.
\<close>

definition counted :: "string set \<Rightarrow> string list \<times> nat option \<Rightarrow> bool" where
  "counted ignores x = (snd x \<noteq> None \<and> list_all (\<lambda>n. n \<notin> ignores) (fst x))"

definition size_of :: "string list \<times> nat option \<Rightarrow> nat" where
  "size_of x = (case snd x of None \<Rightarrow> 0 | Some sz \<Rightarrow> sz)"

text \<open>
  The sum of the sizes of the counted files that have the folder \<open>F\<close> among
  their ancestors, and the folders that are an ancestor of some counted file.
\<close>

definition folder_total :: "node \<Rightarrow> string set \<Rightarrow> string \<Rightarrow> nat" where
  "folder_total root ignores F =
     sum_list (map size_of
       (filter (\<lambda>x. counted ignores x \<and> F \<in> set (ancestors (fst x))) (files_below root)))"

definition folder_keys :: "node \<Rightarrow> string set \<Rightarrow> string list" where
  "folder_keys root ignores =
     concat (map (\<lambda>x. ancestors (fst x)) (filter (counted ignores) (files_below root)))"

text \<open>
  The same sum and key set for entries given relative to the directory at
  \<open>parts\<close>, as the walk meets them.
\<close>

definition total_at :: "string set \<Rightarrow> string list \<Rightarrow> string \<Rightarrow> (string list \<times> nat option) list \<Rightarrow> nat" where
  "total_at ignores parts F fs =
     sum_list (map size_of
       (filter (\<lambda>x. counted ignores x \<and> F \<in> set (ancestors (parts @ fst x))) fs))"

definition keys_at :: "string set \<Rightarrow> string list \<Rightarrow> (string list \<times> nat option) list \<Rightarrow> string set" where
  "keys_at ignores parts fs =
     (\<Union>x \<in> set (filter (counted ignores) fs). set (ancestors (parts @ fst x)))"

lemma total_at_simps:
  "total_at ignores parts F [] = 0"
  "total_at ignores parts F (fs @ gs) = total_at ignores parts F fs + total_at ignores parts F gs"
  by (simp_all add: total_at_def)

lemma keys_at_simps:
  "keys_at ignores parts [] = {}"
  "keys_at ignores parts (fs @ gs) = keys_at ignores parts fs \<union> keys_at ignores parts gs"
  by (auto simp: keys_at_def)

lemma ancestors_file: "ancestors (parts @ [f]) = dir_keys parts"
proof -
  have "as_posix (take i (parts @ [f])) = as_posix (take i parts)"
    if "i \<in> set [1 ..< Suc (length parts)]" for i
  proof -
    from that have "i \<le> length parts" by auto
    then show ?thesis by simp
  qed
  then show ?thesis
    by (simp add: ancestors_def dir_keys_def del: take_append)
qed

lemma total_at_file:
  "total_at ignores parts F [([f], st)] =
     (case st of None \<Rightarrow> 0
      | Some sz \<Rightarrow> if f \<notin> ignores \<and> F \<in> set (dir_keys parts) then sz else 0)"
  by (simp add: total_at_def counted_def size_of_def ancestors_file split: option.splits)

lemma keys_at_file:
  "keys_at ignores parts [([f], st)] =
     (if st \<noteq> None \<and> f \<notin> ignores then set (dir_keys parts) else {})"
  by (simp add: keys_at_def counted_def ancestors_file)

lemma filter_map_Cons:
  "filter P (map (\<lambda>(p, st). (n # p, st)) fs) = map (\<lambda>(p, st). (n # p, st)) (filter (\<lambda>x. P (n # fst x, snd x)) fs)"
  by (induction fs) auto

lemma total_at_under:
  "total_at ignores parts F (map (\<lambda>(p, st). (n # p, st)) fs) =
     (if n \<in> ignores then 0 else total_at ignores (parts @ [n]) F fs)"
proof -
  have "sum_list (map size_of (map (\<lambda>(p, st). (n # p, st)) gs)) = sum_list (map size_of gs)" for gs
    by (induction gs) (auto simp: size_of_def)
  then show ?thesis
    by (simp add: total_at_def filter_map_Cons counted_def)
qed

lemma keys_at_under:
  "keys_at ignores parts (map (\<lambda>(p, st). (n # p, st)) fs) =
     (if n \<in> ignores then {} else keys_at ignores (parts @ [n]) fs)"
  by (auto simp: keys_at_def counted_def)

lemma visit_file_folder_get:
  "dict_get (folder_sizes (visit_file ignores parts f st s)) F
     = dict_get (folder_sizes s) F + total_at ignores parts F [([f], st)]"
  by (simp add: visit_file_def total_at_file add_folders_fold fold_dict_add_get distinct_dir_keys
      split: option.splits)

lemma visit_file_folder_keys:
  "fst ` set (folder_sizes (visit_file ignores parts f st s))
     = fst ` set (folder_sizes s) \<union> keys_at ignores parts [([f], st)]"
  by (auto simp: visit_file_def keys_at_file add_folders_fold fold_dict_add_keys split: option.splits)

lemma visit_file_folder_distinct:
  "distinct (map fst (folder_sizes s)) \<Longrightarrow>
   distinct (map fst (folder_sizes (visit_file ignores parts f st s)))"
  by (simp add: visit_file_def add_folders_fold fold_dict_add_distinct split: option.splits)

text \<open>
  The entries of a listing split as \<^verbatim>\<open>os.walk\<close> splits them: those that are
  not directories, and the contents of those that are.
\<close>

definition file_entries :: "node list \<Rightarrow> (string list \<times> nat option) list" where
  "file_entries es = concat (map entry_files (filter (\<lambda>e. \<not> is_dir e) es))"

definition dir_entries :: "node list \<Rightarrow> (string list \<times> nat option) list" where
  "dir_entries es = concat (map entry_files (filter is_dir es))"

lemma file_entries_simps:
  "file_entries [] = []"
  "file_entries (File f reg st # es) = ([f], st) # file_entries es"
  "file_entries (Dir d l # es) = file_entries es"
  by (simp_all add: file_entries_def)

lemma dir_entries_simps:
  "dir_entries [] = []"
  "is_dir e \<Longrightarrow> dir_entries (e # es) = entry_files e @ dir_entries es"
  "\<not> is_dir e \<Longrightarrow> dir_entries (e # es) = dir_entries es"
  by (simp_all add: dir_entries_def)

lemma total_at_Cons:
  "total_at ignores parts F (x # fs) = total_at ignores parts F [x] + total_at ignores parts F fs"
  using total_at_simps(2) [of ignores parts F "[x]" fs] by simp

lemma keys_at_Cons:
  "keys_at ignores parts (x # fs) = keys_at ignores parts [x] \<union> keys_at ignores parts fs"
  using keys_at_simps(2) [of ignores parts "[x]" fs] by simp

lemma visit_files_folder_get:
  "dict_get (folder_sizes (visit_files ignores parts es s)) F
     = dict_get (folder_sizes s) F + total_at ignores parts F (file_entries es)"
proof (induction ignores parts es s rule: visit_files.induct)
  case (1 ignores parts s)
  show ?case by (simp add: file_entries_simps total_at_simps)
next
  case (2 ignores parts f reg st es s)
  show ?case
    using "2.IH" total_at_Cons [of ignores parts F "([f], st)" "file_entries es"]
    by (simp add: file_entries_simps visit_file_folder_get)
next
  case (3 ignores parts d l es s)
  then show ?case by (simp add: file_entries_simps)
qed

lemma visit_files_folder_keys:
  "fst ` set (folder_sizes (visit_files ignores parts es s))
     = fst ` set (folder_sizes s) \<union> keys_at ignores parts (file_entries es)"
proof (induction ignores parts es s rule: visit_files.induct)
  case (1 ignores parts s)
  show ?case by (simp add: file_entries_simps keys_at_simps)
next
  case (2 ignores parts f reg st es s)
  show ?case
    using "2.IH" keys_at_Cons [of ignores parts "([f], st)" "file_entries es"]
    by (simp add: file_entries_simps visit_file_folder_keys Un_assoc)
next
  case (3 ignores parts d l es s)
  then show ?case by (simp add: file_entries_simps)
qed

lemma visit_files_folder_distinct:
  "distinct (map fst (folder_sizes s)) \<Longrightarrow>
   distinct (map fst (folder_sizes (visit_files ignores parts es s)))"
  by (induction ignores parts es s rule: visit_files.induct)
     (simp_all add: visit_file_folder_distinct)

lemma entry_files_Dir:
  "entry_files (Dir n l) = map (\<lambda>(p, st). (n # p, st)) (files_below (Dir n l))"
  by (cases l) (simp_all add: files_below_def)

lemma files_below_split:
  "total_at ignores parts F (concat (map entry_files es))
     = total_at ignores parts F (file_entries es) + total_at ignores parts F (dir_entries es)"
proof (induction es)
  case Nil
  show ?case by (simp add: file_entries_def dir_entries_def total_at_simps)
next
  case (Cons e es)
  show ?case
  proof (cases e)
    case (File f reg st)
    have "total_at ignores parts F (concat (map entry_files (e # es)))
        = total_at ignores parts F [([f], st)] + total_at ignores parts F (concat (map entry_files es))"
      using total_at_Cons [of ignores parts F "([f], st)" "concat (map entry_files es)"] File by simp
    moreover have "total_at ignores parts F (file_entries (e # es))
        = total_at ignores parts F [([f], st)] + total_at ignores parts F (file_entries es)"
      using total_at_Cons [of ignores parts F "([f], st)" "file_entries es"] File
      by (simp add: file_entries_simps)
    moreover have "dir_entries (e # es) = dir_entries es"
      using File by (simp add: dir_entries_simps)
    ultimately show ?thesis
      using Cons.IH by simp
  next
    case (Dir n l)
    have "total_at ignores parts F (concat (map entry_files (e # es)))
        = total_at ignores parts F (entry_files e) + total_at ignores parts F (concat (map entry_files es))"
      by (simp add: total_at_simps)
    moreover have "dir_entries (e # es) = entry_files e @ dir_entries es"
      using Dir by (simp add: dir_entries_simps)
    moreover have "file_entries (e # es) = file_entries es"
      using Dir by (simp add: file_entries_simps)
    ultimately show ?thesis
      using Cons.IH by (simp add: total_at_simps)
  qed
qed

lemma keys_below_split:
  "keys_at ignores parts (concat (map entry_files es))
     = keys_at ignores parts (file_entries es) \<union> keys_at ignores parts (dir_entries es)"
proof (induction es)
  case Nil
  show ?case by (simp add: file_entries_def dir_entries_def keys_at_simps)
next
  case (Cons e es)
  show ?case
  proof (cases e)
    case (File f reg st)
    have "keys_at ignores parts (concat (map entry_files (e # es)))
        = keys_at ignores parts [([f], st)] \<union> keys_at ignores parts (concat (map entry_files es))"
      using keys_at_Cons [of ignores parts "([f], st)" "concat (map entry_files es)"] File by simp
    moreover have "keys_at ignores parts (file_entries (e # es))
        = keys_at ignores parts [([f], st)] \<union> keys_at ignores parts (file_entries es)"
      using keys_at_Cons [of ignores parts "([f], st)" "file_entries es"] File
      by (simp add: file_entries_simps)
    moreover have "dir_entries (e # es) = dir_entries es"
      using File by (simp add: dir_entries_simps)
    ultimately show ?thesis
      using Cons.IH by (simp add: Un_assoc)
  next
    case (Dir n l)
    have "keys_at ignores parts (concat (map entry_files (e # es)))
        = keys_at ignores parts (entry_files e) \<union> keys_at ignores parts (concat (map entry_files es))"
      by (simp add: keys_at_simps)
    moreover have "dir_entries (e # es) = entry_files e @ dir_entries es"
      using Dir by (simp add: dir_entries_simps)
    moreover have "file_entries (e # es) = file_entries es"
      using Dir by (simp add: file_entries_simps)
    ultimately show ?thesis
      using Cons.IH by (auto simp: keys_at_simps)
  qed
qed

lemma total_at_entry_files_dir:
  assumes "is_dir e"
  shows "total_at ignores parts F (entry_files e) =
     (if name_of e \<in> ignores then 0 else total_at ignores (parts @ [name_of e]) F (files_below e))"
proof -
  from assms obtain n l where e: "e = Dir n l" by (cases e) simp_all
  show ?thesis
    unfolding e entry_files_Dir total_at_under by simp
qed

lemma keys_at_entry_files_dir:
  assumes "is_dir e"
  shows "keys_at ignores parts (entry_files e) =
     (if name_of e \<in> ignores then {} else keys_at ignores (parts @ [name_of e]) (files_below e))"
proof -
  from assms obtain n l where e: "e = Dir n l" by (cases e) simp_all
  show ?thesis
    unfolding e entry_files_Dir keys_at_under by simp
qed

lemma walk_folder_get:
  "dict_get (folder_sizes (walk ignores parts dir s)) F
     = dict_get (folder_sizes s) F + total_at ignores parts F (files_below dir)"
  "dict_get (folder_sizes (walk_dirs ignores parts es s)) F
     = dict_get (folder_sizes s) F + total_at ignores parts F (dir_entries es)"
proof (induction ignores parts dir s and ignores parts es s rule: walk_walk_dirs.induct)
  case (1 ignores parts uu uv uw s)
  show ?case by (simp add: files_below_def total_at_simps)
next
  case (2 ignores parts ux s)
  show ?case by (simp add: files_below_def total_at_simps)
next
  case (3 ignores parts uy es s)
  have "files_below (Dir uy (Some es)) = concat (map entry_files es)"
    by (simp add: files_below_def)
  then show ?case
    using "3.IH" visit_files_folder_get [of ignores parts es s F]
      files_below_split [of ignores parts F es]
    by simp
next
  case (4 ignores parts s)
  show ?case by (simp add: dir_entries_simps total_at_simps)
next
  case (5 ignores parts e es s)
  show ?case
  proof (cases "is_dir e")
    case False
    with "5.IH"(3) show ?thesis
      by (simp add: dir_entries_simps)
  next
    case True
    note split = total_at_simps(2) [of ignores parts F "entry_files e" "dir_entries es"]
    show ?thesis
    proof (cases "name_of e \<in> ignores")
      case True
      with \<open>is_dir e\<close> "5.IH"(3) split show ?thesis
        by (simp add: dir_entries_simps total_at_entry_files_dir)
    next
      case False
      with \<open>is_dir e\<close> "5.IH"(1,2) split show ?thesis
        by (simp add: dir_entries_simps total_at_entry_files_dir)
    qed
  qed
qed

lemma walk_folder_keys:
  "fst ` set (folder_sizes (walk ignores parts dir s))
     = fst ` set (folder_sizes s) \<union> keys_at ignores parts (files_below dir)"
  "fst ` set (folder_sizes (walk_dirs ignores parts es s))
     = fst ` set (folder_sizes s) \<union> keys_at ignores parts (dir_entries es)"
proof (induction ignores parts dir s and ignores parts es s rule: walk_walk_dirs.induct)
  case (1 ignores parts uu uv uw s)
  show ?case by (simp add: files_below_def keys_at_simps)
next
  case (2 ignores parts ux s)
  show ?case by (simp add: files_below_def keys_at_simps)
next
  case (3 ignores parts uy es s)
  have "files_below (Dir uy (Some es)) = concat (map entry_files es)"
    by (simp add: files_below_def)
  then show ?case
    using "3.IH" visit_files_folder_keys [of ignores parts es s]
      keys_below_split [of ignores parts es]
    by (simp add: Un_assoc)
next
  case (4 ignores parts s)
  show ?case by (simp add: dir_entries_simps keys_at_simps)
next
  case (5 ignores parts e es s)
  show ?case
  proof (cases "is_dir e")
    case False
    with "5.IH"(3) show ?thesis
      by (simp add: dir_entries_simps)
  next
    case True
    note split = keys_at_simps(2) [of ignores parts "entry_files e" "dir_entries es"]
    show ?thesis
    proof (cases "name_of e \<in> ignores")
      case True
      with \<open>is_dir e\<close> "5.IH"(3) split show ?thesis
        by (simp add: dir_entries_simps keys_at_entry_files_dir)
    next
      case False
      with \<open>is_dir e\<close> "5.IH"(1,2) split show ?thesis
        by (simp add: dir_entries_simps keys_at_entry_files_dir Un_assoc)
    qed
  qed
qed

lemma walk_folder_distinct:
  "distinct (map fst (folder_sizes s)) \<Longrightarrow> distinct (map fst (folder_sizes (walk ignores parts dir s)))"
  "distinct (map fst (folder_sizes s)) \<Longrightarrow> distinct (map fst (folder_sizes (walk_dirs ignores parts es s)))"
proof (induction ignores parts dir s and ignores parts es s rule: walk_walk_dirs.induct)
  case (3 ignores parts uy es s)
  then show ?case
    by (simp add: visit_files_folder_distinct)
next
  case (5 ignores parts e es s)
  show ?case
  proof (cases "is_dir e \<and> name_of e \<notin> ignores")
    case True
    from "5.IH"(1) [OF True "5.prems"] have "distinct (map fst (folder_sizes (walk ignores (parts @ [name_of e]) e s)))" .
    from "5.IH"(2) [OF True this] True show ?thesis by simp
  next
    case False
    from "5.IH"(3) [OF False "5.prems"] False show ?thesis by auto
  qed
qed simp_all

text \<open>
  A name a directory entry can have: not empty, not a dot or two dots, without
  a slash.
\<close>

definition valid_name :: "string \<Rightarrow> bool" where
  "valid_name n = (n \<noteq> [] \<and> n \<noteq> ''.'' \<and> n \<noteq> ''..'' \<and> CHR ''/'' \<notin> set n)"

lemma entry_files_names:
  "x \<in> set (entry_files e) \<Longrightarrow> set (fst x) \<subseteq> insert (name_of e) (set (names_below e))"
proof (induction e arbitrary: x rule: entry_files.induct)
  case (3 n es)
  then obtain e p st where e: "e \<in> set es" and p: "(p, st) \<in> set (entry_files e)" and x: "x = (n # p, st)"
    by auto
  from "3.IH" [OF e p] have "set p \<subseteq> insert (name_of e) (set (names_below e))" by simp
  with e x show ?case by auto
qed simp_all

lemma files_below_names:
  "x \<in> set (files_below root) \<Longrightarrow> set (fst x) \<subseteq> set (names_below root)"
proof (cases root)
  case (File n reg st)
  assume "x \<in> set (files_below root)"
  with File show ?thesis by (simp add: files_below_def)
next
  case (Dir n l)
  assume x: "x \<in> set (files_below root)"
  show ?thesis
  proof (cases l)
    case None
    with Dir x show ?thesis by (simp add: files_below_def)
  next
    case (Some es)
    with Dir x obtain e where "e \<in> set es" "x \<in> set (entry_files e)"
      by (auto simp: files_below_def)
    with entry_files_names [of x e] Dir Some show ?thesis by auto
  qed
qed

lemma as_posix_valid:
  assumes "ps \<noteq> []" and "\<forall>n \<in> set ps. valid_name n"
  shows "as_posix ps \<noteq> ''.'' \<and> as_posix ps \<noteq> []"
proof (cases ps)
  case Nil
  with assms show ?thesis by simp
next
  case (Cons p qs)
  with assms have p: "p \<noteq> []" "p \<noteq> ''.''" by (simp_all add: valid_name_def)
  show ?thesis
  proof (cases qs)
    case Nil
    with Cons p show ?thesis by (simp add: as_posix_def)
  next
    case (Cons q rs)
    from p(1) obtain c cs where "p = c # cs" by (cases p) simp_all
    with \<open>ps = p # qs\<close> Cons show ?thesis
      by (simp add: as_posix_def)
  qed
qed

lemma keys_at_root: "keys_at ignores [] (files_below root) = set (folder_keys root ignores)"
  by (auto simp: keys_at_def folder_keys_def)

lemma total_at_root: "total_at ignores [] F (files_below root) = folder_total root ignores F"
  by (simp add: total_at_def folder_total_def)

lemma folder_keys_valid:
  assumes "list_all valid_name (names_below root)" and "F \<in> set (folder_keys root ignores)"
  shows "F \<noteq> ''.'' \<and> F \<noteq> []"
proof -
  from assms(2) obtain x i where x: "x \<in> set (files_below root)" and i: "1 \<le> i" "i < length (fst x)"
    and F: "F = as_posix (take i (fst x))"
    by (auto simp: folder_keys_def ancestors_def)
  from files_below_names [OF x] assms(1) have "\<forall>n \<in> set (fst x). valid_name n"
    by (auto simp: list_all_iff)
  then have "\<forall>n \<in> set (take i (fst x)). valid_name n"
    by (meson in_set_takeD)
  moreover from i have "take i (fst x) \<noteq> []" by auto
  ultimately show ?thesis
    unfolding F by (rule as_posix_valid [rotated])
qed

lemma map_of_dict_get:
  "F \<in> fst ` set d \<Longrightarrow> map_of d F = Some (dict_get d F)"
  by (auto simp: dict_get_def map_of_eq_None_iff split: option.splits)

lemma set_top_n: "set (top_n n key xs) \<subseteq> set xs"
proof -
  have "set (take n (sorted_reverse key xs)) \<subseteq> set (sorted_reverse key xs)"
    by (rule set_take_subset)
  then show ?thesis
    by (simp add: top_n_def sorted_reverse_def)
qed

text \<open>
  C1. The folder table the Aggregator builds has one entry per key; its keys
  are exactly the folders that are a proper ancestor of some counted file (a
  non-excluded file whose size was read); the value under each key \<open>F\<close> is the
  sum of the sizes of all counted files that have \<open>F\<close> as a proper ancestor,
  which also holds for the entries selected into \<^verbatim>\<open>top_folders\<close>; and the root,
  whose relative path is empty and prints as a dot, is not a key.
\<close>

theorem folder_sizes_recursive_sums:
  "distinct (map fst (folder_sizes (gather_loop root ignores)))
   \<and> set (map fst (folder_sizes (gather_loop root ignores))) = set (folder_keys root ignores)
   \<and> (\<forall>F \<in> set (map fst (folder_sizes (gather_loop root ignores))).
         map_of (folder_sizes (gather_loop root ignores)) F = Some (folder_total root ignores F))
   \<and> (\<forall>(F, v) \<in> set (top_folders (gather_stats root ignores)). v = folder_total root ignores F)
   \<and> (list_all valid_name (names_below root) \<longrightarrow>
         ''.'' \<notin> set (map fst (folder_sizes (gather_loop root ignores)))
         \<and> [] \<notin> set (map fst (folder_sizes (gather_loop root ignores))))"
proof -
  let ?d = "folder_sizes (gather_loop root ignores)"
  have dist: "distinct (map fst ?d)"
    using walk_folder_distinct(1) [of acc0 ignores "[]" root]
    by (simp add: gather_loop_def acc0_def)
  have keys: "set (map fst ?d) = set (folder_keys root ignores)"
    using walk_folder_keys(1) [of ignores "[]" root acc0]
    by (simp add: gather_loop_def acc0_def keys_at_root)
  have get: "dict_get ?d F = folder_total root ignores F" for F
    using walk_folder_get(1) [of ignores "[]" root acc0 F]
    by (simp add: gather_loop_def acc0_def total_at_root dict_get_def)
  have vals: "\<forall>F \<in> set (map fst ?d). map_of ?d F = Some (folder_total root ignores F)"
    using map_of_dict_get [of _ ?d] get by simp
  have top: "\<forall>(F, v) \<in> set (top_folders (gather_stats root ignores)). v = folder_total root ignores F"
  proof (clarify)
    fix F v
    assume "(F, v) \<in> set (top_folders (gather_stats root ignores))"
    then have in_d: "(F, v) \<in> set ?d"
      using set_top_n [of 10 snd ?d] by (auto simp: gather_stats_def Let_def)
    with dist have "map_of ?d F = Some v" by simp
    moreover from in_d have "F \<in> fst ` set ?d" by force
    then have "map_of ?d F = Some (dict_get ?d F)" by (rule map_of_dict_get)
    ultimately show "v = folder_total root ignores F"
      using get [of F] by simp
  qed
  have valid: "list_all valid_name (names_below root) \<longrightarrow> ''.'' \<notin> set (map fst ?d) \<and> [] \<notin> set (map fst ?d)"
    using folder_keys_valid [of root _ ignores] unfolding keys by blast
  from dist keys vals top valid show ?thesis by blast
qed

lemma folder_sizes_example:
  "folder_sizes (gather_loop example_root {}) = [(''src'', 800), (''src/lib'', 300)]"
  by code_simp

lemma folder_total_example:
  "folder_total example_root {} ''src'' = 800 \<and> folder_total example_root {} ''src/lib'' = 300
   \<and> list_all valid_name (names_below example_root)"
  by code_simp

theorem folder_sizes_recursive_sums_witness:
  "folder_sizes (gather_loop example_root {}) = [(''src'', 800), (''src/lib'', 300)]
   \<and> folder_total example_root {} ''src'' = 800
   \<and> folder_total example_root {} ''src/lib'' = 300
   \<and> list_all valid_name (names_below example_root)"
  using folder_sizes_recursive_sums [of example_root "{}"] folder_sizes_example folder_total_example
  by simp

section \<open>Exclusion\<close>

text \<open>
  The tree without every entry, at any depth below the root, whose bare name is
  in the exclusion set, and so without everything under an excluded directory.
  The root's own name is not looked at: neither traversal compares it.
\<close>

fun prune :: "string set \<Rightarrow> node \<Rightarrow> node" where
  "prune ignores (File n reg st) = File n reg st"
| "prune ignores (Dir n l) =
     Dir n (map_option (\<lambda>es. map (prune ignores) (filter (\<lambda>e. name_of e \<notin> ignores) es)) l)"

text \<open>
  The same tree as the Renderer sees it. Line 105 asks \<^verbatim>\<open>is_file()\<close> of every
  entry of a listing before line 108 drops the excluded ones, so an excluded
  entry whose \<^verbatim>\<open>is_file()\<close> raises makes the listing of its directory fail:
  that directory is unlistable in the Renderer's tree. Nothing else of an
  excluded entry, and nothing below it, is kept.
\<close>

fun prune_r :: "string set \<Rightarrow> node \<Rightarrow> node" where
  "prune_r ignores (File n reg st) = File n reg st"
| "prune_r ignores (Dir n None) = Dir n None"
| "prune_r ignores (Dir n (Some es)) =
     (if list_ex (\<lambda>e. name_of e \<in> ignores \<and> is_file e = None) es then Dir n None
      else Dir n (Some (map (prune_r ignores) (filter (\<lambda>e. name_of e \<notin> ignores) es))))"

text \<open>
  No excluded entry that a traversal can reach has an \<^verbatim>\<open>is_file()\<close> that
  raises.
\<close>

fun excluded_answer :: "string set \<Rightarrow> node \<Rightarrow> bool" where
  "excluded_answer ignores (File n reg st) = True"
| "excluded_answer ignores (Dir n None) = True"
| "excluded_answer ignores (Dir n (Some es)) =
     list_all (\<lambda>e. if name_of e \<in> ignores then is_file e \<noteq> None else excluded_answer ignores e) es"

text \<open>
  The entry a rendered line shows: what follows its prefix extensions and its
  connector, which is the bare name of the entry, with a slash after a
  directory.
\<close>

function line_entry :: "string \<Rightarrow> string option" where
  "line_entry s =
     (if starts_with connector_last s then Some (drop (length connector_last) s)
      else if starts_with connector_mid s then Some (drop (length connector_mid) s)
      else if starts_with extension_last s then line_entry (drop (length extension_last) s)
      else if starts_with extension_mid s then line_entry (drop (length extension_mid) s)
      else None)"
  by pat_completeness auto
termination
proof (relation "measure length", goal_cases)
  case 1
  show ?case by simp
next
  case (2 s)
  then have "s \<noteq> []"
    by (auto simp: starts_with_def extension_last_def)
  then show ?case
    by (simp add: extension_last_def)
next
  case (3 s)
  then have "s \<noteq> []"
    by (auto simp: starts_with_def extension_mid_def)
  then show ?case
    by (simp add: extension_mid_def)
qed

declare line_entry.simps [simp del]

text \<open>
  A directory holding \<^verbatim>\<open>.env\<close>, whose \<^verbatim>\<open>stat\<close> is refused (a link into a
  directory that may not be searched), and \<^verbatim>\<open>a.py\<close> of 5 bytes.
\<close>

definition example_denied :: node where
  "example_denied =
     Dir ''P'' (Some [File ''.env'' None None, File ''a.py'' (Some True) (Some 5)])"

text \<open>
  The entries of a listing that \<open>prune\<close> and \<open>prune_r\<close> keep, pruned.
\<close>

definition kept :: "string set \<Rightarrow> node list \<Rightarrow> node list" where
  "kept ignores es = map (prune ignores) (filter (\<lambda>e. name_of e \<notin> ignores) es)"

definition kept_r :: "string set \<Rightarrow> node list \<Rightarrow> node list" where
  "kept_r ignores es = map (prune_r ignores) (filter (\<lambda>e. name_of e \<notin> ignores) es)"

lemma prune_r_observations [simp]:
  "name_of (prune_r ignores e) = name_of e"
  "is_dir (prune_r ignores e) = is_dir e"
  "is_file (prune_r ignores e) = is_file e"
  by (induction ignores e rule: prune_r.induct) simp_all

lemma key_of_prune_r [simp]:
  "key_of (prune_r ignores e) = key_of e"
  "answers (prune_r ignores e) = answers e"
  by (simp_all add: key_of_def answers_def)

lemma children_kept_r: "children {} (kept_r ignores es) = map (prune_r ignores) (children ignores es)"
proof -
  have "sort_key key_of (map (prune_r ignores) (filter (\<lambda>e. name_of e \<notin> ignores) es))
      = map (prune_r ignores) (sort_key key_of (filter (\<lambda>e. name_of e \<notin> ignores) es))"
    by (rule sort_key_map_same) simp
  then show ?thesis
    by (simp add: children_def kept_r_def filter_sort)
qed

lemma listing_prune_r:
  "listing path = Some es \<Longrightarrow>
   listing (prune_r ignores path) =
     (if list_ex (\<lambda>e. name_of e \<in> ignores \<and> is_file e = None) es then None
      else Some (kept_r ignores es))"
  by (cases path) (auto simp: kept_r_def)

lemma listing_prune_r_None: "listing path = None \<Longrightarrow> listing (prune_r ignores path) = None"
  by (cases path) auto

lemma answers_kept_r:
  "list_all answers es \<longleftrightarrow>
     \<not> list_ex (\<lambda>e. name_of e \<in> ignores \<and> is_file e = None) es \<and> list_all answers (kept_r ignores es)"
  by (auto simp: list_all_iff list_ex_iff kept_r_def answers_def)

lemma helper_prune_r:
  "helper depth ignores path prefix cd = helper depth {} (prune_r ignores path) prefix cd"
  "\<forall>e \<in> set es. name_of e \<notin> ignores \<Longrightarrow>
     helper_loop depth ignores es prefix cd = helper_loop depth {} (map (prune_r ignores) es) prefix cd"
proof (induction depth ignores path prefix cd and depth ignores es prefix cd
       rule: helper_helper_loop.induct)
  case (1 depth ignores path prefix current_depth)
  note unf = helper_unfold [of depth _ _ prefix current_depth]
  show ?case
  proof (cases "current_depth > depth")
    case True
    then show ?thesis
      by (simp only: unf if_True)
  next
    case False
    show ?thesis
    proof (cases "listing path")
      case None
      with listing_prune_r_None [OF None, of ignores] show ?thesis
        by (simp only: unf option.case)
    next
      case (Some es)
      show ?thesis
      proof (cases "list_all answers es")
        case True
        have "\<forall>e \<in> set (filter (\<lambda>e. name_of e \<notin> ignores) (sort_key key_of es)). name_of e \<notin> ignores"
          by simp
        from "1.IH" [OF False Some sorted_entries_answers [OF True] this]
        have "helper_loop depth ignores (children ignores es) prefix current_depth
            = helper_loop depth {} (map (prune_r ignores) (children ignores es)) prefix current_depth"
          by (simp only: children_def)
        then have "helper_loop depth ignores (children ignores es) prefix current_depth
            = helper_loop depth {} (children {} (kept_r ignores es)) prefix current_depth"
          by (simp only: children_kept_r)
        moreover from True have "\<not> list_ex (\<lambda>e. name_of e \<in> ignores \<and> is_file e = None) es"
          and "list_all answers (kept_r ignores es)"
          using answers_kept_r [of es ignores] by simp_all
        moreover from this(1) have "listing (prune_r ignores path) = Some (kept_r ignores es)"
          using listing_prune_r [OF Some, of ignores] by simp
        ultimately show ?thesis
          using Some True False by (simp add: unf)
      next
        case no: False
        have "helper depth {} (prune_r ignores path) prefix current_depth = []"
        proof (cases "list_ex (\<lambda>e. name_of e \<in> ignores \<and> is_file e = None) es")
          case True
          with listing_prune_r [OF Some, of ignores] show ?thesis
            by (simp add: unf)
        next
          case False
          with no answers_kept_r [of es ignores] have "\<not> list_all answers (kept_r ignores es)"
            by simp
          with False listing_prune_r [OF Some, of ignores] show ?thesis
            by (simp add: unf)
        qed
        with Some no show ?thesis
          by (simp add: unf)
      qed
    qed
  qed
next
  case (2 depth ignores prefix current_depth)
  show ?case by simp
next
  case (3 depth ignores entry rest prefix current_depth)
  from "3.prems" have rest: "\<forall>e \<in> set rest. name_of e \<notin> ignores"
    by simp
  note ih2 = "3.IH"(2) [OF refl refl refl rest]
  show ?case
  proof (cases "is_dir entry")
    case True
    from "3.IH"(1) [OF refl refl refl True] ih2 True show ?thesis
      by (simp add: Let_def)
  next
    case False
    with ih2 show ?thesis
      by (simp add: Let_def)
  qed
qed

lemma prune_observations [simp]:
  "name_of (prune ignores e) = name_of e"
  "is_dir (prune ignores e) = is_dir e"
  "is_file (prune ignores e) = is_file e"
  by (cases e; simp)+

lemma visit_file_not_ignored:
  "f \<notin> ignores \<Longrightarrow> visit_file ignores parts f st s = visit_file {} parts f st s"
  by (simp add: visit_file_def)

lemma visit_file_ignored:
  "f \<in> ignores \<Longrightarrow> visit_file ignores parts f st s = s"
  by (simp add: visit_file_def)

lemma kept_simps:
  "kept ignores [] = []"
  "kept ignores (e # es) = (if name_of e \<in> ignores then kept ignores es else prune ignores e # kept ignores es)"
  by (simp_all add: kept_def)

lemma prune_Dir: "prune ignores (Dir n l) = Dir n (map_option (kept ignores) l)"
  by (simp add: kept_def cong: option.map_cong)

lemma visit_files_prune:
  "visit_files ignores parts es s = visit_files {} parts (kept ignores es) s"
proof (induction ignores parts es s rule: visit_files.induct)
  case (1 ignores parts s)
  show ?case by (simp add: kept_simps)
next
  case (2 ignores parts f reg st es s)
  show ?case
  proof (cases "f \<in> ignores")
    case True
    with 2 show ?thesis by (simp add: kept_simps visit_file_ignored)
  next
    case False
    with 2 show ?thesis by (simp add: kept_simps visit_file_not_ignored [of f ignores])
  qed
next
  case (3 ignores parts d l es s)
  then show ?case by (simp add: kept_simps prune_Dir del: prune.simps)
qed

lemma walk_prune:
  "walk ignores parts dir s = walk {} parts (prune ignores dir) s"
  "walk_dirs ignores parts es s = walk_dirs {} parts (kept ignores es) s"
proof (induction ignores parts dir s and ignores parts es s rule: walk_walk_dirs.induct)
  case (1 ignores parts uu uv uw s)
  show ?case by simp
next
  case (2 ignores parts ux s)
  show ?case by (simp add: prune_Dir del: prune.simps)
next
  case (3 ignores parts uy es s)
  have "walk ignores parts (Dir uy (Some es)) s
      = walk_dirs {} parts (kept ignores es) (visit_files ignores parts es s)"
    using "3.IH" by simp
  also have "\<dots> = walk_dirs {} parts (kept ignores es) (visit_files {} parts (kept ignores es) s)"
    by (simp only: visit_files_prune [of ignores])
  finally show ?case
    by (simp add: prune_Dir del: prune.simps)
next
  case (4 ignores parts s)
  show ?case by (simp add: kept_simps)
next
  case (5 ignores parts e es s)
  show ?case
  proof (cases "is_dir e \<and> name_of e \<notin> ignores")
    case True
    with "5.IH"(1,2) show ?thesis
      by (simp add: kept_simps)
  next
    case False
    with "5.IH"(3) show ?thesis
      by (cases "name_of e \<in> ignores") (simp_all add: kept_simps)
  qed
qed

lemma names_below_prune: "set (names_below (prune ignores dir)) \<inter> ignores = {}"
proof (induction dir rule: names_below.induct)
  case (3 n es)
  then show ?case by fastforce
qed simp_all


lemma names_below_prune_r: "set (names_below (prune_r ignores dir)) \<inter> ignores = {}"
proof (induction dir rule: names_below.induct)
  case (3 n es)
  show ?case
  proof (cases "list_ex (\<lambda>e. name_of e \<in> ignores \<and> is_file e = None) es")
    case True
    then show ?thesis by simp
  next
    case False
    have "set (name_of e # names_below (prune_r ignores e)) \<inter> ignores = {}"
      if "e \<in> set es" "name_of e \<notin> ignores" for e
      using "3.IH" [OF that(1)] that(2) by simp
    with False show ?thesis
      by (auto simp del: prune_r_observations) (use prune_r_observations in fastforce)+
  qed
qed simp_all

lemma prune_r_eq_prune:
  "excluded_answer ignores dir \<Longrightarrow> prune_r ignores dir = prune ignores dir"
proof (induction dir rule: names_below.induct)
  case (3 n es)
  from "3.prems" have no: "\<not> list_ex (\<lambda>e. name_of e \<in> ignores \<and> is_file e = None) es"
    by (auto simp: list_all_iff list_ex_iff)
  have "prune_r ignores e = prune ignores e" if "e \<in> set es" "name_of e \<notin> ignores" for e
    using "3.IH" [OF that(1)] "3.prems" that by (auto simp: list_all_iff)
  then have "map (prune_r ignores) (filter (\<lambda>e. name_of e \<notin> ignores) es)
      = map (prune ignores) (filter (\<lambda>e. name_of e \<notin> ignores) es)"
    by simp
  with no show ?case by simp
qed simp_all

text \<open>
  The file records of the counted files among entries given relative to the
  directory at \<open>parts\<close>.
\<close>

definition records_at ::
  "string set \<Rightarrow> string list \<Rightarrow> (string list \<times> nat option) list \<Rightarrow> (string \<times> nat) set" where
  "records_at ignores parts fs =
     (\<lambda>x. (as_posix (parts @ fst x), size_of x)) ` set (filter (counted ignores) fs)"

lemma records_at_simps:
  "records_at ignores parts [] = {}"
  "records_at ignores parts (fs @ gs) = records_at ignores parts fs \<union> records_at ignores parts gs"
  "records_at ignores parts (x # fs) = records_at ignores parts [x] \<union> records_at ignores parts fs"
  by (auto simp: records_at_def)

lemma records_at_file:
  "records_at ignores parts [([f], st)] =
     (case st of None \<Rightarrow> {}
      | Some sz \<Rightarrow> if f \<notin> ignores then {(as_posix (parts @ [f]), sz)} else {})"
  by (auto simp: records_at_def counted_def size_of_def split: option.splits)

lemma records_at_under:
  "records_at ignores parts (map (\<lambda>(p, st). (n # p, st)) fs) =
     (if n \<in> ignores then {} else records_at ignores (parts @ [n]) fs)"
proof (cases "n \<in> ignores")
  case True
  then show ?thesis
    by (simp add: records_at_def filter_map_Cons counted_def)
next
  case False
  have cnt: "counted ignores (n # fst x, snd x) = counted ignores x" for x
    using False by (simp add: counted_def)
  have "(\<lambda>x. (as_posix (parts @ fst x), size_of x)) ` (\<lambda>(p, st). (n # p, st)) ` A
      = (\<lambda>x. (as_posix ((parts @ [n]) @ fst x), size_of x)) ` A" for A
    by (force simp: size_of_def image_iff)
  with False show ?thesis
    by (simp add: records_at_def filter_map_Cons cnt)
qed

lemma visit_file_records:
  "set (file_sizes (visit_file ignores parts f st s))
     = set (file_sizes s) \<union> records_at ignores parts [([f], st)]"
  by (auto simp: visit_file_def records_at_file split: option.splits)

lemma visit_files_records:
  "set (file_sizes (visit_files ignores parts es s))
     = set (file_sizes s) \<union> records_at ignores parts (file_entries es)"
proof (induction ignores parts es s rule: visit_files.induct)
  case (1 ignores parts s)
  show ?case by (simp add: file_entries_simps records_at_simps(1))
next
  case (2 ignores parts f reg st es s)
  show ?case
    using "2.IH" records_at_simps(3) [of ignores parts "([f], st)" "file_entries es"]
    by (simp add: file_entries_simps visit_file_records Un_assoc)
next
  case (3 ignores parts d l es s)
  then show ?case by (simp add: file_entries_simps)
qed

lemma records_below_split:
  "records_at ignores parts (concat (map entry_files es))
     = records_at ignores parts (file_entries es) \<union> records_at ignores parts (dir_entries es)"
proof -
  have "set (concat (map entry_files es)) = set (file_entries es) \<union> set (dir_entries es)"
    by (auto simp: file_entries_def dir_entries_def)
  then show ?thesis
    by (auto simp: records_at_def)
qed

lemma records_at_entry_files_dir:
  assumes "is_dir e"
  shows "records_at ignores parts (entry_files e) =
     (if name_of e \<in> ignores then {} else records_at ignores (parts @ [name_of e]) (files_below e))"
proof -
  from assms obtain n l where e: "e = Dir n l" by (cases e) simp_all
  show ?thesis
    unfolding e entry_files_Dir records_at_under by simp
qed

lemma walk_records:
  "set (file_sizes (walk ignores parts dir s))
     = set (file_sizes s) \<union> records_at ignores parts (files_below dir)"
  "set (file_sizes (walk_dirs ignores parts es s))
     = set (file_sizes s) \<union> records_at ignores parts (dir_entries es)"
proof (induction ignores parts dir s and ignores parts es s rule: walk_walk_dirs.induct)
  case (1 ignores parts uu uv uw s)
  show ?case by (simp add: files_below_def records_at_simps(1))
next
  case (2 ignores parts ux s)
  show ?case by (simp add: files_below_def records_at_simps(1))
next
  case (3 ignores parts uy es s)
  have "files_below (Dir uy (Some es)) = concat (map entry_files es)"
    by (simp add: files_below_def)
  then show ?case
    using "3.IH" visit_files_records [of ignores parts es s]
      records_below_split [of ignores parts es]
    by (simp add: Un_assoc)
next
  case (4 ignores parts s)
  show ?case by (simp add: dir_entries_simps records_at_simps(1))
next
  case (5 ignores parts e es s)
  show ?case
  proof (cases "is_dir e")
    case False
    with "5.IH"(3) show ?thesis
      by (simp add: dir_entries_simps)
  next
    case True
    note split = records_at_simps(2) [of ignores parts "entry_files e" "dir_entries es"]
    show ?thesis
    proof (cases "name_of e \<in> ignores")
      case True
      with \<open>is_dir e\<close> "5.IH"(3) split show ?thesis
        by (simp add: dir_entries_simps records_at_entry_files_dir)
    next
      case False
      with \<open>is_dir e\<close> "5.IH"(1,2) split show ?thesis
        by (simp add: dir_entries_simps records_at_entry_files_dir Un_assoc)
    qed
  qed
qed

lemma line_entry_connector:
  "c = connector_last \<or> c = connector_mid \<Longrightarrow> line_entry (c @ rest) = Some rest"
  by (subst line_entry.simps)
     (auto simp: starts_with_def connector_last_def connector_mid_def)

lemma line_entry_extension:
  assumes "u = extension_last \<or> u = extension_mid"
  shows "line_entry (u @ rest) = line_entry rest"
  using assms
  by (subst line_entry.simps)
     (auto simp: starts_with_def extension_last_def extension_mid_def connector_last_def connector_mid_def)

lemma line_entry_prefix:
  assumes "set us \<subseteq> {extension_last, extension_mid}"
    and "c = connector_last \<or> c = connector_mid"
  shows "line_entry (concat us @ c @ rest) = Some rest"
  using assms
  by (induction us) (auto simp: line_entry_connector line_entry_extension)

lemma set_children: "set (children ignores es) = {e \<in> set es. name_of e \<notin> ignores}"
  by (auto simp: children_def)

lemma helper_lines_name:
  "prefix = concat us \<Longrightarrow> set us \<subseteq> {extension_last, extension_mid} \<Longrightarrow>
     \<forall>line \<in> set (helper depth ignores path prefix cd).
        \<exists>n. n \<notin> ignores \<and> n \<in> set (names_below path)
          \<and> (line_entry line = Some n \<or> line_entry line = Some (n @ ''/''))"
  "prefix = concat us \<Longrightarrow> set us \<subseteq> {extension_last, extension_mid} \<Longrightarrow>
   \<forall>e \<in> set es. name_of e \<notin> ignores \<Longrightarrow>
     \<forall>line \<in> set (helper_loop depth ignores es prefix cd).
        \<exists>n. n \<notin> ignores \<and> n \<in> set (concat (map (\<lambda>e. name_of e # names_below e) es))
          \<and> (line_entry line = Some n \<or> line_entry line = Some (n @ ''/''))"
proof (induction depth ignores path prefix cd and depth ignores es prefix cd
       arbitrary: us and us rule: helper_helper_loop.induct)
  case (1 depth ignores path prefix current_depth)
  note unf = helper_unfold [of depth ignores path prefix current_depth]
  show ?case
  proof (cases "current_depth > depth")
    case True
    then show ?thesis by (simp add: unf)
  next
    case False
    show ?thesis
    proof (cases "listing path")
      case None
      with False show ?thesis by (simp add: unf)
    next
      case (Some es)
      then obtain n where path: "path = Dir n (Some es)" by (cases path) simp_all
      show ?thesis
      proof (cases "list_all answers es")
        case True
        have ex: "\<forall>e \<in> set (filter (\<lambda>e. name_of e \<notin> ignores) (sort_key key_of es)). name_of e \<notin> ignores"
          by simp
        have sub: "set (concat (map (\<lambda>e. name_of e # names_below e) (children ignores es)))
            \<subseteq> set (names_below path)"
          unfolding path by (auto simp: set_children)
        from "1.IH" [OF False Some sorted_entries_answers [OF True] "1.prems" ex]
        have "\<forall>line \<in> set (helper_loop depth ignores (children ignores es) prefix current_depth).
            \<exists>n. n \<notin> ignores \<and> n \<in> set (concat (map (\<lambda>e. name_of e # names_below e) (children ignores es)))
              \<and> (line_entry line = Some n \<or> line_entry line = Some (n @ ''/''))"
          by (simp only: children_def)
        with sub have "\<forall>line \<in> set (helper_loop depth ignores (children ignores es) prefix current_depth).
            \<exists>n. n \<notin> ignores \<and> n \<in> set (names_below path)
              \<and> (line_entry line = Some n \<or> line_entry line = Some (n @ ''/''))"
          by blast
        with False Some True show ?thesis by (simp add: unf)
      next
        case no: False
        with False Some show ?thesis by (simp add: unf)
      qed
    qed
  qed
next
  case (2 depth ignores prefix current_depth)
  then show ?case by simp
next
  case (3 depth ignores entry rest prefix current_depth)
  define u where "u = (if rest = [] then extension_last else extension_mid)"
  define c where "c = (if rest = [] then connector_last else connector_mid)"
  let ?names = "set (concat (map (\<lambda>e. name_of e # names_below e) (entry # rest)))"
  have first: "line_entry (prefix @ c @ name_of entry @ sfx) = Some (name_of entry @ sfx)" for sfx
    using line_entry_prefix [OF "3.prems"(2), of c] "3.prems"(1) by (simp add: c_def)
  have entry: "name_of entry \<notin> ignores" "name_of entry \<in> ?names"
    using "3.prems"(3) by simp_all
  have us': "set (us @ [u]) \<subseteq> {extension_last, extension_mid}"
    using "3.prems"(2) by (simp add: u_def)
  have pre': "prefix @ u = concat (us @ [u])"
    using "3.prems"(1) by simp
  have sub: "\<forall>line \<in> set (helper depth ignores entry (prefix @ u) (current_depth + 1)).
        \<exists>n. n \<notin> ignores \<and> n \<in> ?names
          \<and> (line_entry line = Some n \<or> line_entry line = Some (n @ ''/''))"
    if "is_dir entry"
  proof -
    have "\<forall>line \<in> set (helper depth ignores entry (prefix @ u) (current_depth + 1)).
        \<exists>n. n \<notin> ignores \<and> n \<in> set (names_below entry)
          \<and> (line_entry line = Some n \<or> line_entry line = Some (n @ ''/''))"
      using "3.IH"(1) [OF refl refl refl that _ us', unfolded u_def [symmetric]] pre'
      by (simp add: u_def)
    then show ?thesis by fastforce
  qed
  have rest: "\<forall>line \<in> set (helper_loop depth ignores rest prefix current_depth).
        \<exists>n. n \<notin> ignores \<and> n \<in> ?names
          \<and> (line_entry line = Some n \<or> line_entry line = Some (n @ ''/''))"
  proof -
    from "3.prems"(3) have "\<forall>e \<in> set rest. name_of e \<notin> ignores" by simp
    from "3.IH"(2) [OF refl refl refl "3.prems"(1,2) this] show ?thesis by fastforce
  qed
  have line1: "\<exists>n. n \<notin> ignores \<and> n \<in> ?names
      \<and> (line_entry (prefix @ c @ name_of entry @ sfx) = Some n
          \<or> line_entry (prefix @ c @ name_of entry @ sfx) = Some (n @ ''/''))"
    if "sfx = [] \<or> sfx = ''/''" for sfx
    using first [of sfx] entry that by (intro exI [of _ "name_of entry"]) auto
  show ?case
  proof (cases "is_dir entry")
    case True
    with line1 [of "''/''"] sub rest show ?thesis
      by (auto simp: Let_def c_def u_def)
  next
    case False
    with line1 [of "[]"] rest show ?thesis
      by (auto simp: Let_def c_def u_def)
  qed
qed

lemma gather_stats_example_lib:
  "gather_stats example_root {''lib''}
     = \<lparr>st_total_files = 2, st_total_bytes = 600,
        st_lang_counts = [(''Markdown'', 1), (''Go'', 1)],
        top_files = [(''src/main.go'', 500), (''README.md'', 100)],
        top_folders = [(''src'', 500)]\<rparr>"
  by code_simp

lemma scan_tree_example_lib:
  "scan_tree example_root 3 {''lib''}
     = [''repo/'', connector_mid @ ''src/'', extension_mid @ connector_last @ ''main.go'',
        connector_last @ ''README.md'']"
  by code_simp

lemma example_denied_outputs:
  "scan_tree example_denied 3 {''.env''} = [''P/'']
   \<and> scan_tree (prune {''.env''} example_denied) 3 {} = [''P/'', connector_last @ ''a.py'']
   \<and> file_sizes (gather_loop example_denied {''.env''}) = [(''a.py'', 5)]"
  by code_simp

lemma example_root_excluded_answer: "excluded_answer {''lib''} example_root"
  by code_simp



section \<open>The size formatters: \<^verbatim>\<open>human_size\<close> and \<^verbatim>\<open>human_readable\<close>\<close>

text \<open>
  The exceptions the two formatters can raise. A result is \<open>Inl\<close> of the
  exception or \<open>Inr\<close> of the value returned, where the value \<open>None\<close> is what
  Python returns when the loop ends without a \<^verbatim>\<open>return\<close>.
\<close>

datatype py_error = OverflowError | ZeroDivisionError

text \<open>
  \<^verbatim>\<open>int.bit_length()\<close> of a non-negative integer.
\<close>

fun bit_length :: "int \<Rightarrow> nat" where
  "bit_length n = (if n \<le> 0 then 0 else Suc (bit_length (n div 2)))"

declare bit_length.simps [simp del]

text \<open>
  The precision and the exponent bound of an IEEE binary64 number, under the
  names of C's \<^verbatim>\<open>float.h\<close>.
\<close>

definition DBL_MANT_DIG :: nat where
  "DBL_MANT_DIG = 53"

definition DBL_MAX_EXP :: nat where
  "DBL_MAX_EXP = 1024"

text \<open>
  The integer with at most \<open>p\<close> significant bits nearest to the non-negative
  integer \<open>a\<close>, a tie going to the even one: the rounding of CPython's
  conversion of an \<^verbatim>\<open>int\<close> to a \<^verbatim>\<open>float\<close>.
\<close>

definition round_to_bits :: "nat \<Rightarrow> int \<Rightarrow> int" where
  "round_to_bits p a =
     (let k = bit_length a in
      if k \<le> p then a
      else
        let sh = k - p;
            q = a div 2 ^ sh;
            r = a mod 2 ^ sh;
            half = 2 ^ (sh - 1);
            q' = (if half < r \<or> (r = half \<and> odd q) then q + 1 else q)
        in q' * 2 ^ sh)"

text \<open>
  \<^verbatim>\<open>float(n)\<close>. A float is modelled by the rational number it denotes. The
  conversion rounds to 53 significant bits and raises \<^verbatim>\<open>OverflowError\<close> when the
  rounded value is no finite binary64 number, that is when it reaches
  \<open>2 ^ 1024\<close>.
\<close>

definition py_float :: "int \<Rightarrow> py_error + rat" where
  "py_float n =
     (let v = round_to_bits DBL_MANT_DIG \<bar>n\<bar> in
      if 2 ^ DBL_MAX_EXP \<le> v then Inl OverflowError
      else Inr (of_int (if n < 0 then - v else v)))"

text \<open>
  \<^verbatim>\<open>size < 1024\<close> and \<^verbatim>\<open>size / 1024\<close> with an \<^verbatim>\<open>int\<close> on the right, as
  \<^verbatim>\<open>human_readable\<close> writes them: Python compares a float with an int by value,
  and divides by the int converted with \<^verbatim>\<open>float\<close>. The quotient is exact: the
  dividend is a binary64 number of magnitude at least 1024 and the divisor is
  \<open>2 ^ 10\<close>, so the exact quotient is a binary64 number and IEEE division
  returns it.
\<close>

definition float_lt_int :: "rat \<Rightarrow> int \<Rightarrow> bool" where
  "float_lt_int x i = (x < of_int i)"

definition float_truediv_int :: "rat \<Rightarrow> int \<Rightarrow> py_error + rat" where
  "float_truediv_int x i =
     (case py_float i of
        Inl e \<Rightarrow> Inl e
      | Inr y \<Rightarrow> if y = 0 then Inl ZeroDivisionError else Inr (x / y))"

text \<open>
  \<^verbatim>\<open>f"{x:.1f}"\<close>: the decimal digits of the integer part, a point and one
  decimal, of the exact value rounded to one decimal with a tie going to the
  even digit, after a minus sign for a negative value.
\<close>

definition digit_char :: "int \<Rightarrow> char" where
  "digit_char d = char_of (48 + d)"

function show_int :: "int \<Rightarrow> string" where
  "show_int n = (if n < 10 then [digit_char n] else show_int (n div 10) @ [digit_char (n mod 10)])"
  by pat_completeness auto
termination
  by (relation "measure nat") auto

declare show_int.simps [simp del]

definition round_half_even :: "rat \<Rightarrow> int" where
  "round_half_even x =
     (let f = \<lfloor>x\<rfloor>; d = x - of_int f in
      if d < 1 / 2 then f
      else if 1 / 2 < d then f + 1
      else if even f then f else f + 1)"

definition format_1f :: "rat \<Rightarrow> string" where
  "format_1f x =
     (let t = round_half_even (\<bar>x\<bar> * 10) in
      (if x < 0 then ''-'' else []) @ show_int (t div 10) @ ''.'' @ [digit_char (t mod 10)])"

text \<open>
  The two formatters. \<open>sz\<close> stands for the variable \<^verbatim>\<open>size\<close>. The loops run over
  the units still to come; \<^verbatim>\<open>units[-1]\<close> is \<open>last units\<close>. \<^verbatim>\<open>human_size\<close>
  compares with and divides by the float \<^verbatim>\<open>1024.0\<close>, \<^verbatim>\<open>human_readable\<close> the int
  \<^verbatim>\<open>1024\<close>.
\<close>

definition units :: "string list" where
  "units = [''B'', ''KB'', ''MB'', ''GB'', ''TB'']"

fun human_size_loop :: "string list \<Rightarrow> rat \<Rightarrow> string option" where
  "human_size_loop [] sz = None"
| "human_size_loop (u # us) sz =
     (if sz < 1024 \<or> u = last units then Some (format_1f sz @ '' '' @ u)
      else human_size_loop us (sz / 1024))"

definition human_size :: "int \<Rightarrow> py_error + string option" where
  "human_size num_bytes =
     (case py_float num_bytes of
        Inl e \<Rightarrow> Inl e
      | Inr sz \<Rightarrow> Inr (human_size_loop units sz))"

fun human_readable_loop :: "string list \<Rightarrow> rat \<Rightarrow> py_error + string option" where
  "human_readable_loop [] sz = Inr None"
| "human_readable_loop (u # us) sz =
     (if float_lt_int sz 1024 \<or> u = last units then Inr (Some (format_1f sz @ '' '' @ u))
      else case float_truediv_int sz 1024 of
        Inl e \<Rightarrow> Inl e
      | Inr sz' \<Rightarrow> human_readable_loop us sz')"

definition human_readable :: "int \<Rightarrow> py_error + string option" where
  "human_readable n =
     (case py_float n of
        Inl e \<Rightarrow> Inl e
      | Inr sz \<Rightarrow> human_readable_loop units sz)"

text \<open>
  A decimal digit.
\<close>

definition is_digit :: "char \<Rightarrow> bool" where
  "is_digit c = (c \<in> set ''0123456789'')"


lemma bit_length_0 [simp]: "bit_length 0 = 0"
  by (simp add: bit_length.simps [of 0])

lemma bit_length_upper: "a < 2 ^ bit_length a"
proof (induction a rule: bit_length.induct)
  case (1 n)
  show ?case
  proof (cases "n \<le> 0")
    case True
    then show ?thesis by (simp add: bit_length.simps [of n])
  next
    case False
    from "1.IH" [OF False] have "n div 2 < 2 ^ bit_length (n div 2)" .
    then have "n < 2 * 2 ^ bit_length (n div 2)" by linarith
    with False show ?thesis by (simp add: bit_length.simps [of n])
  qed
qed

lemma bit_length_lower: "0 < a \<Longrightarrow> 2 ^ (bit_length a - 1) \<le> a"
proof (induction a rule: bit_length.induct)
  case (1 n)
  from "1.prems" have pos: "\<not> n \<le> 0" by simp
  show ?case
  proof (cases "n div 2 = 0")
    case True
    then have "bit_length (n div 2) = 0" by simp
    with pos "1.prems" show ?thesis by (simp add: bit_length.simps [of n])
  next
    case False
    with "1.prems" have "0 < n div 2" by linarith
    from "1.IH" [OF pos this] have ih: "2 ^ (bit_length (n div 2) - 1) \<le> n div 2" .
    from \<open>0 < n div 2\<close> have "bit_length (n div 2) \<noteq> 0"
      by (simp add: bit_length.simps [of "n div 2"])
    then obtain m where m: "bit_length (n div 2) = Suc m" by (cases "bit_length (n div 2)") simp_all
    from ih m have "2 ^ m \<le> n div 2" by simp
    then have "2 * 2 ^ m \<le> n" by linarith
    with pos m show ?thesis by (simp add: bit_length.simps [of n])
  qed
qed

lemma round_to_bits_bound:
  assumes "0 \<le> a" and "p < E" and "a < 2 ^ E - 2 ^ (E - p - 1)"
  shows "round_to_bits p a < 2 ^ E"
proof (cases "bit_length a \<le> p")
  case True
  have "(0::int) < 2 ^ (E - p - 1)" by simp
  with assms(3) have "a < 2 ^ E" by linarith
  with True show ?thesis by (simp add: round_to_bits_def)
next
  case False
  define k where "k = bit_length a"
  define sh where "sh = k - p"
  define S :: int where "S = 2 ^ sh"
  define H :: int where "H = 2 ^ (sh - 1)"
  define P :: int where "P = 2 ^ p"
  define q where "q = a div S"
  define r where "r = a mod S"
  define q' where "q' = (if H < r \<or> (r = H \<and> odd q) then q + 1 else q)"
  from False have kp: "p < k" by (simp add: k_def)
  then have sh: "0 < sh" "k = p + sh" by (simp_all add: sh_def)
  have Spos: "0 < S" and Hpos: "0 < H" by (simp_all add: S_def H_def)
  have SH: "S = 2 * H"
    using sh(1) by (cases sh) (simp_all add: S_def H_def)
  have val: "round_to_bits p a = q' * S"
    using False by (simp add: round_to_bits_def Let_def k_def sh_def S_def H_def q_def r_def q'_def)
  have a_eq: "a = q * S + r" and r_bounds: "0 \<le> r" "r < S"
    using Spos by (simp_all add: q_def r_def)
  have a_pos: "0 < a"
  proof (rule ccontr)
    assume "\<not> 0 < a"
    with assms(1) have "a = 0" by simp
    then have "bit_length a = 0" by simp
    with False show False by simp
  qed
  have upper: "a < P * S"
    using bit_length_upper [of a] sh(2) by (simp add: k_def P_def S_def power_add)
  have q_lt: "q < P"
  proof (rule ccontr)
    assume "\<not> q < P"
    then have "P * S \<le> q * S" using Spos by (simp add: mult_right_mono)
    with a_eq r_bounds upper show False by linarith
  qed
  have kE: "k \<le> E"
  proof (rule ccontr)
    assume "\<not> k \<le> E"
    then have "E \<le> k - 1" by simp
    then have "(2::int) ^ E \<le> 2 ^ (k - 1)" by (simp add: power_increasing)
    also have "\<dots> \<le> a" using bit_length_lower [OF a_pos] by (simp add: k_def)
    finally have "2 ^ E \<le> a" .
    moreover have "(0::int) < 2 ^ (E - p - 1)" by simp
    ultimately show False using assms(3) by linarith
  qed
  show ?thesis
  proof (cases "k = E")
    case False
    with kE have "k + 1 \<le> E" by simp
    then have "(2::int) * 2 ^ k \<le> 2 ^ E"
      by (metis power_increasing power_Suc Suc_eq_plus1 one_le_numeral)
    moreover have "q' \<le> P" using q_lt by (simp add: q'_def)
    then have "q' * S \<le> P * S" using Spos by (simp add: mult_right_mono)
    moreover have "P * S = 2 ^ k" using sh(2) by (simp add: P_def S_def power_add)
    moreover have "(0::int) < 2 ^ k" by simp
    ultimately show ?thesis unfolding val by linarith
  next
    case True
    then have E: "E = p + sh" using sh(2) by simp
    then have "E - p - 1 = sh - 1" by simp
    with assms(3) E have a_lt: "a < P * S - H"
      by (simp add: P_def S_def H_def power_add)
    have "q' < P"
    proof (cases "q = P - 1")
      case True
      with a_eq a_lt have "r < H" using SH by (simp add: algebra_simps)
      then have "q' = q" by (simp add: q'_def)
      with q_lt show ?thesis by simp
    next
      case False
      with q_lt have "q + 1 < P" by simp
      then show ?thesis by (simp add: q'_def)
    qed
    then have "q' * S < P * S" using Spos by simp
    moreover have "P * S = 2 ^ E" using E by (simp add: P_def S_def power_add)
    ultimately show ?thesis unfolding val by simp
  qed
qed


lemma py_float_1024: "py_float 1024 = Inr 1024"
  by code_simp

lemma float_truediv_int_1024: "float_truediv_int sz 1024 = Inr (sz / 1024)"
  by (simp add: float_truediv_int_def py_float_1024)

lemma human_readable_loop_eq:
  "human_readable_loop us sz = Inr (human_size_loop us sz)"
  by (induction us arbitrary: sz) (simp_all add: float_lt_int_def float_truediv_int_1024)

lemma human_size_eq: "human_size n = human_readable n"
  by (simp add: human_size_def human_readable_def human_readable_loop_eq split: sum.splits)

lemma py_float_converts:
  assumes "0 \<le> n" and "n < 2 ^ 1024 - 2 ^ 970"
  shows "py_float n = Inr (of_int (round_to_bits 53 n))"
proof -
  have "round_to_bits 53 n < 2 ^ 1024"
    using round_to_bits_bound [of n 53 1024] assms by simp
  with assms(1) show ?thesis
    by (simp add: py_float_def DBL_MANT_DIG_def DBL_MAX_EXP_def Let_def)
qed

lemma human_size_loop_units:
  "\<exists>k \<le> 4. human_size_loop units sz = Some (format_1f (sz / 1024 ^ k) @ '' '' @ units ! k)
      \<and> (k < 4 \<longrightarrow> sz / 1024 ^ k < 1024) \<and> (\<forall>j < k. 1024 \<le> sz / 1024 ^ j)"
proof -
  consider (0) "sz < 1024"
    | (1) "1024 \<le> sz" "sz / 1024 < 1024"
    | (2) "1024 \<le> sz" "1024 \<le> sz / 1024" "sz / 1024 ^ 2 < 1024"
    | (3) "1024 \<le> sz" "1024 \<le> sz / 1024" "1024 \<le> sz / 1024 ^ 2" "sz / 1024 ^ 3 < 1024"
    | (4) "1024 \<le> sz" "1024 \<le> sz / 1024" "1024 \<le> sz / 1024 ^ 2" "1024 \<le> sz / 1024 ^ 3"
    by linarith
  then show ?thesis
  proof cases
    case 0
    then show ?thesis
      by (intro exI [of _ 0]) (simp add: units_def)
  next
    case 1
    then show ?thesis
      by (intro exI [of _ 1]) (simp add: units_def)
  next
    case 2
    have "\<forall>j < (2::nat). 1024 \<le> sz / 1024 ^ j"
      using 2 by (auto simp: less_Suc_eq numeral_2_eq_2)
    with 2 show ?thesis
      by (intro exI [of _ 2]) (simp add: units_def power2_eq_square)
  next
    case 3
    have "\<forall>j < (3::nat). 1024 \<le> sz / 1024 ^ j"
      using 3 by (auto simp: less_Suc_eq numeral_3_eq_3 power2_eq_square)
    with 3 show ?thesis
      by (intro exI [of _ 3]) (simp add: units_def power2_eq_square power3_eq_cube)
  next
    case 4
    have "\<forall>j < (4::nat). 1024 \<le> sz / 1024 ^ j"
      using 4 by (auto simp: less_Suc_eq numeral_eq_Suc power2_eq_square power3_eq_cube)
    with 4 show ?thesis
      by (intro exI [of _ 4]) (simp add: units_def power2_eq_square power3_eq_cube power4_eq_xxxx)
  qed
qed

lemma digit_chars:
  "map digit_char [0, 1, 2, 3, 4, 5, 6, 7, 8, 9] = ''0123456789''"
  by code_simp

lemma is_digit_digit_char:
  assumes "0 \<le> d" and "d < 10"
  shows "is_digit (digit_char d)"
proof -
  from assms have "d = 0 \<or> d = 1 \<or> d = 2 \<or> d = 3 \<or> d = 4 \<or> d = 5 \<or> d = 6 \<or> d = 7 \<or> d = 8 \<or> d = 9"
    by presburger
  then have "digit_char d \<in> set (map digit_char [0, 1, 2, 3, 4, 5, 6, 7, 8, 9])"
    by auto
  then show ?thesis
    by (simp only: digit_chars is_digit_def)
qed

lemma show_int_digits:
  "0 \<le> n \<Longrightarrow> show_int n \<noteq> [] \<and> list_all is_digit (show_int n)"
proof (induction n rule: show_int.induct)
  case (1 n)
  show ?case
  proof (cases "n < 10")
    case True
    with "1.prems" show ?thesis
      by (simp add: show_int.simps [of n] is_digit_digit_char)
  next
    case False
    then have "0 \<le> n div 10" by simp
    from "1.IH" [OF False this] False show ?thesis
      by (simp add: show_int.simps [of n] is_digit_digit_char)
  qed
qed

lemma round_half_even_nonneg: "0 \<le> x \<Longrightarrow> 0 \<le> round_half_even x"
  by (auto simp: round_half_even_def Let_def)

lemma format_1f_shape:
  assumes "0 \<le> x"
  shows "\<exists>ds d. format_1f x = ds @ ''.'' @ [d] \<and> ds \<noteq> [] \<and> list_all is_digit ds \<and> is_digit d"
proof -
  define t where "t = round_half_even (\<bar>x\<bar> * 10)"
  have "0 \<le> t"
    unfolding t_def by (rule round_half_even_nonneg) simp
  then have "0 \<le> t div 10" by simp
  then have "show_int (t div 10) \<noteq> [] \<and> list_all is_digit (show_int (t div 10))"
    by (rule show_int_digits)
  moreover have "is_digit (digit_char (t mod 10))"
    by (rule is_digit_digit_char) simp_all
  moreover have "format_1f x = show_int (t div 10) @ ''.'' @ [digit_char (t mod 10)]"
    using assms by (simp add: format_1f_def t_def Let_def)
  ultimately show ?thesis by blast
qed

lemma round_to_bits_nonneg: "0 \<le> a \<Longrightarrow> 0 \<le> round_to_bits p a"
  by (auto simp: round_to_bits_def Let_def pos_imp_zdiv_nonneg_iff)

lemma human_size_loop_units_not_None: "human_size_loop units sz \<noteq> None"
  using human_size_loop_units [of sz] by auto



lemma human_readable_1536: "human_readable 1536 = Inr (Some ''1.5 KB'')"
  by code_simp

text \<open>
  Every float the conversion returns is an integer of at most 53 significant
  bits times a power of two.
\<close>

lemma py_float_representable:
  assumes "py_float n = Inr x"
  shows "\<exists>m e. \<bar>m\<bar> \<le> 2 ^ 53 \<and> x = of_int (m * 2 ^ e)"
proof -
  define a where "a = \<bar>n\<bar>"
  have "\<exists>m e. 0 \<le> m \<and> m \<le> 2 ^ 53 \<and> round_to_bits 53 a = m * 2 ^ e"
  proof (cases "bit_length a \<le> 53")
    case True
    have "a < 2 ^ bit_length a" by (rule bit_length_upper)
    also have "(2::int) ^ bit_length a \<le> 2 ^ 53"
      using True by (intro power_increasing) simp_all
    finally have "a \<le> 2 ^ 53" by simp
    moreover have "0 \<le> a" by (simp add: a_def)
    ultimately show ?thesis
      using True by (intro exI [of _ a] exI [of _ 0]) (simp add: round_to_bits_def)
  next
    case False
    define sh where "sh = bit_length a - 53"
    define q where "q = a div 2 ^ sh"
    define q' where "q' = (if 2 ^ (sh - 1) < a mod 2 ^ sh \<or> (a mod 2 ^ sh = 2 ^ (sh - 1) \<and> odd q) then q + 1 else q)"
    have val: "round_to_bits 53 a = q' * 2 ^ sh"
      using False by (simp add: round_to_bits_def Let_def sh_def q_def q'_def)
    have "a < 2 ^ bit_length a" by (rule bit_length_upper)
    also have "bit_length a = 53 + sh" using False by (simp add: sh_def)
    finally have "a < 2 ^ 53 * 2 ^ sh" by (simp add: power_add)
    have nonneg: "0 \<le> a" by (simp add: a_def)
    have S: "(0::int) < 2 ^ sh" by simp
    have "q * 2 ^ sh \<le> a"
      unfolding q_def using S nonneg by (metis div_mult_mod_eq add_increasing2 order_refl pos_mod_sign)
    have "q < 2 ^ 53"
    proof (rule ccontr)
      assume "\<not> q < 2 ^ 53"
      then have "2 ^ 53 * 2 ^ sh \<le> q * 2 ^ sh" using S by (simp add: mult_right_mono)
      with \<open>q * 2 ^ sh \<le> a\<close> \<open>a < 2 ^ 53 * 2 ^ sh\<close> show False by linarith
    qed
    moreover have "0 \<le> q" using nonneg by (simp add: q_def pos_imp_zdiv_nonneg_iff)
    ultimately have "0 \<le> q'" "q' \<le> 2 ^ 53" by (simp_all add: q'_def)
    with val show ?thesis by blast
  qed
  then obtain m e where m: "0 \<le> m" "m \<le> 2 ^ 53" "round_to_bits 53 a = m * 2 ^ e" by blast
  from assms have "x = of_int (if n < 0 then - (m * 2 ^ e) else m * 2 ^ e)"
    using m(3) by (simp add: py_float_def DBL_MANT_DIG_def Let_def a_def split: if_splits)
  then have "x = of_int ((if n < 0 then - m else m) * 2 ^ e)" by simp
  moreover have "\<bar>if n < 0 then - m else m\<bar> \<le> 2 ^ 53" using m(1,2) by simp
  ultimately show ?thesis by blast
qed




lemma human_examples:
  "human_size 1536 = Inr (Some ''1.5 KB'') \<and> human_readable 1536 = Inr (Some ''1.5 KB'')
   \<and> human_size 123456789 = Inr (Some ''117.7 MB'')
   \<and> human_readable 123456789 = Inr (Some ''117.7 MB'')
   \<and> human_size (- 5) = Inr (Some ''-5.0 B'') \<and> human_readable (- 5) = Inr (Some ''-5.0 B'')"
  by code_simp

text \<open>
  C9. \<^verbatim>\<open>human_size\<close> and \<^verbatim>\<open>human_readable\<close> give the same result for every
  integer: the same string, or the same exception.
\<close>

theorem human_size_equals_human_readable:
  "human_size n = human_readable n
   \<and> human_size 1536 = Inr (Some ''1.5 KB'') \<and> human_readable 1536 = Inr (Some ''1.5 KB'')
   \<and> human_size 123456789 = Inr (Some ''117.7 MB'')
   \<and> human_readable 123456789 = Inr (Some ''117.7 MB'')
   \<and> human_size (- 5) = Inr (Some ''-5.0 B'') \<and> human_readable (- 5) = Inr (Some ''-5.0 B'')"
  using human_examples by (simp add: human_size_eq)

end
